theory Spec2Isabelle
  imports Main "HOL-Library.List_Lexorder"
begin

section \<open>Strings, runes and the library functions the package calls\<close>

text \<open>
  A Go string is modelled as the list of its Unicode code points (runes); the model
  covers the strings that are valid UTF-8, which is what \<^verbatim>\<open>[]rune(s)\<close>, \<^verbatim>\<open>range s\<close> and
  the \<^verbatim>\<open>strings\<close> package see of them. Where the source indexes or slices a string by
  bytes, the byte offsets are computed from the UTF-8 width of each rune
  (\<open>utf8_len\<close>, \<open>blen\<close>, \<open>slice_bytes\<close>), so that a slice that cuts a rune in two, or
  that is out of range, is a separate outcome of the model.

  ASCII text is written \<open>asc ''...''\<close>; other runes are written as code points.
\<close>

type_synonym rune = nat
type_synonym gostring = "rune list"

definition asc :: "string \<Rightarrow> gostring" where
  "asc cs = map of_char cs"

definition utf8_len :: "rune \<Rightarrow> nat" where
  "utf8_len r = (if r < 0x80 then 1 else if r < 0x800 then 2 else if r < 0x10000 then 3 else 4)"

definition blen :: "gostring \<Rightarrow> nat" where
  \<comment> \<open>\<^verbatim>\<open>len(s)\<close>: the length in bytes\<close>
  "blen s = sum_list (map utf8_len s)"

text \<open>
  \<open>rune_index s n\<close> is the index of the rune that starts at byte offset \<open>n\<close> of \<open>s\<close>
  (\<open>length s\<close> for the offset just past the end), and \<open>None\<close> when the offset lies inside
  a rune or past the end.
\<close>

fun rune_index :: "gostring \<Rightarrow> nat \<Rightarrow> nat option" where
  "rune_index [] n = (if n = 0 then Some 0 else None)"
| "rune_index (r # rs) n =
     (if n = 0 then Some 0
      else if utf8_len r \<le> n then map_option Suc (rune_index rs (n - utf8_len r))
      else None)"

datatype sliced = OutOfRange | Broken | Sub gostring

definition slice_bytes :: "gostring \<Rightarrow> nat \<Rightarrow> nat \<Rightarrow> sliced" where
  \<comment> \<open>\<^verbatim>\<open>s[lo:hi]\<close> with byte offsets: Go panics when \<open>lo > hi\<close> or \<open>hi > len(s)\<close>;
      \<open>Broken\<close> is a result that is not valid UTF-8\<close>
  "slice_bytes s lo hi =
     (if lo > hi \<or> hi > blen s then OutOfRange
      else (case (rune_index s lo, rune_index s hi) of
              (Some a, Some b) \<Rightarrow> Sub (take (b - a) (drop a s))
            | _ \<Rightarrow> Broken))"

definition HasPrefix :: "gostring \<Rightarrow> gostring \<Rightarrow> bool" where
  "HasPrefix s p = (take (length p) s = p)"

fun Index :: "gostring \<Rightarrow> rune \<Rightarrow> nat option" where
  \<comment> \<open>\<^verbatim>\<open>strings.Index(s, c)\<close> for a one-character \<open>c\<close>: the position (counted in runes) of
      its first occurrence; \<open>None\<close> stands for Go's \<open>-1\<close>\<close>
  "Index [] c = None"
| "Index (r # rs) c = (if r = c then Some 0 else map_option Suc (Index rs c))"

fun Split_from :: "rune \<Rightarrow> gostring \<Rightarrow> gostring \<Rightarrow> gostring list" where
  "Split_from sep cur [] = [cur]"
| "Split_from sep cur (r # rs) =
     (if r = sep then cur # Split_from sep [] rs else Split_from sep (cur @ [r]) rs)"

definition Split :: "gostring \<Rightarrow> rune \<Rightarrow> gostring list" where
  \<comment> \<open>\<^verbatim>\<open>strings.Split(s, sep)\<close> for a one-character separator\<close>
  "Split s sep = Split_from sep [] s"

fun Join :: "gostring list \<Rightarrow> gostring \<Rightarrow> gostring" where
  "Join [] sep = []"
| "Join [x] sep = x"
| "Join (x # y # ys) sep = x @ sep @ Join (y # ys) sep"

definition isSpace :: "rune \<Rightarrow> bool" where
  \<comment> \<open>Unicode White\_Space: \<^verbatim>\<open>unicode.IsSpace\<close>, and the \<^verbatim>\<open>isSpace\<close> of package \<^verbatim>\<open>fmt\<close>\<close>
  "isSpace r = ((0x09 \<le> r \<and> r \<le> 0x0D) \<or> r = 0x20 \<or> r = 0x85 \<or> r = 0xA0 \<or> r = 0x1680
      \<or> (0x2000 \<le> r \<and> r \<le> 0x200A) \<or> r = 0x2028 \<or> r = 0x2029 \<or> r = 0x202F
      \<or> r = 0x205F \<or> r = 0x3000)"

definition TrimSpace :: "gostring \<Rightarrow> gostring" where
  "TrimSpace s = rev (dropWhile isSpace (rev (dropWhile isSpace s)))"

subsection \<open>strconv.Atoi\<close>

definition isDecimal :: "rune \<Rightarrow> bool" where
  "isDecimal r = (0x30 \<le> r \<and> r \<le> 0x39)"

fun decimal :: "int \<Rightarrow> gostring \<Rightarrow> int" where
  "decimal acc [] = acc"
| "decimal acc (r # rs) = decimal (acc * 10 + (int r - 0x30)) rs"

definition Atoi :: "gostring \<Rightarrow> int option" where
  \<comment> \<open>an optional sign, then one or more ASCII digits; the value must fit Go's 64-bit
      \<^verbatim>\<open>int\<close>. \<open>None\<close> is \<^verbatim>\<open>*strconv.NumError\<close>.\<close>
  "Atoi s =
     (let neg = (s \<noteq> [] \<and> hd s = 0x2D);
          ds = (if s \<noteq> [] \<and> (hd s = 0x2D \<or> hd s = 0x2B) then tl s else s)
      in if ds = [] \<or> \<not> list_all isDecimal ds then None
         else (let n = decimal 0 ds
               in if neg then (if n > 2 ^ 63 then None else Some (- n))
                  else (if n \<ge> 2 ^ 63 then None else Some n)))"

subsection \<open>fmt.Sscanf with the format of Entry.Unmarshal\<close>

text \<open>
  \<^verbatim>\<open>fmt.Sscanf(chars, "%s %s ", &trad, &sim)\<close>. A \<^verbatim>\<open>%s\<close> verb skips leading space and
  reads the next word (up to the next space); input that ends before a word is an
  error. A space in the format matches one or more spaces of the input, or its end.
  A newline in the input matches neither. Once the format is used up the scan is over:
  input that is left is not read and is no error. The number returned counts the
  operands stored; each error leaves it below two or comes with it.
\<close>

datatype scan_error = UnexpectedEOF | UnexpectedNewline | NewlineMismatch | ExpectedSpace

fun SkipSpace :: "gostring \<Rightarrow> scan_error + gostring" where
  "SkipSpace [] = Inr []"
| "SkipSpace (r # rs) =
     (if r = 0x0A then Inl UnexpectedNewline
      else if isSpace r then SkipSpace rs
      else Inr (r # rs))"

definition scan_word :: "gostring \<Rightarrow> scan_error + (gostring \<times> gostring)" where
  \<comment> \<open>the verb \<^verbatim>\<open>%s\<close>: the word read and the input left\<close>
  "scan_word inp =
     (case SkipSpace inp of
        Inl e \<Rightarrow> Inl e
      | Inr rest \<Rightarrow>
          if rest = [] then Inl UnexpectedEOF
          else Inr (takeWhile (\<lambda>r. \<not> isSpace r) rest, dropWhile (\<lambda>r. \<not> isSpace r) rest))"

definition scan_space :: "gostring \<Rightarrow> scan_error + gostring" where
  \<comment> \<open>a space of the format\<close>
  "scan_space inp =
     (case inp of
        [] \<Rightarrow> Inr []
      | r # rs \<Rightarrow>
          if \<not> isSpace r then Inl ExpectedSpace
          else if r = 0x0A then Inl NewlineMismatch
          else Inr (dropWhile (\<lambda>c. isSpace c \<and> c \<noteq> 0x0A) rs))"

definition Sscanf_words :: "gostring \<Rightarrow> nat \<times> gostring \<times> gostring \<times> scan_error option" where
  \<comment> \<open>\<open>(n, trad, sim, err)\<close>\<close>
  "Sscanf_words chars =
     (case scan_word chars of
        Inl e \<Rightarrow> (0, [], [], Some e)
      | Inr (trad, r1) \<Rightarrow>
          (case scan_space r1 of
             Inl e \<Rightarrow> (1, trad, [], Some e)
           | Inr r2 \<Rightarrow>
               (case scan_word r2 of
                  Inl e \<Rightarrow> (1, trad, [], Some e)
                | Inr (sim, r3) \<Rightarrow>
                    (case scan_space r3 of
                       Inl e \<Rightarrow> (2, trad, sim, Some e)
                     | Inr r4 \<Rightarrow> (2, trad, sim, None)))))"

section \<open>The data model\<close>

type_synonym time = int

record Entry =
  Traditional :: gostring
  Simplified :: gostring
  Pinyin :: gostring
  Meanings :: "gostring list"

record Metadata =
  Version :: int
  Subversion :: int
  Format :: gostring
  Charset :: gostring
  Entries :: int
  Publisher :: gostring
  License :: gostring
  Timestamp :: time

datatype panic = SliceBoundsOutOfRange | IndexOutOfRange

datatype error =
    NumError gostring
  | TimeParseError gostring
  | ScanError scan_error
  | New gostring
  | Wrap error gostring
  | WithStack error
  | EntriesMismatch int int
  | DownloadError gostring

datatype 'a outcome = Ok 'a | Err error | Panic panic

text \<open>
  The fields \<^verbatim>\<open>e\<close>, \<^verbatim>\<open>md\<close>, \<^verbatim>\<open>ready\<close>, \<^verbatim>\<open>header\<close> and \<^verbatim>\<open>err\<close> of \<^verbatim>\<open>Dict\<close>. The channel
  \<^verbatim>\<open>ready\<close> is only ever closed and tested: it is the flag "closed". The mutex
  serialises \<^verbatim>\<open>lazyLoad\<close>, whose calls are therefore steps on this state.
\<close>

record Dict =
  d_e :: "Entry list"
  d_md :: Metadata
  d_ready :: bool
  d_header :: "gostring list"
  d_err :: "error option"

definition zero_time :: time where
  "zero_time = 0"

definition zero_Metadata :: Metadata where
  "zero_Metadata = \<lparr>Version = 0, Subversion = 0, Format = [], Charset = [], Entries = 0,
     Publisher = [], License = [], Timestamp = zero_time\<rparr>"

definition newDict :: Dict where
  "newDict = \<lparr>d_e = [], d_md = zero_Metadata, d_ready = False, d_header = [], d_err = None\<rparr>"

definition isReady :: "Dict \<Rightarrow> bool" where
  "isReady d = d_ready d"

definition setReady :: "Dict \<Rightarrow> Dict" where
  "setReady d = (if \<not> isReady d then d\<lparr>d_ready := True\<rparr> else d)"

section \<open>The format codec\<close>

definition LineEnding :: gostring where
  "LineEnding = [0x0D, 0x0A]"

definition Marshal :: "Entry \<Rightarrow> gostring" where
  "Marshal e = Traditional e @ asc '' '' @ Simplified e @ asc '' ['' @ Pinyin e @ asc ''] ''
     @ (asc ''/'' @ Join (Meanings e) (asc ''/'') @ asc ''/'')"

definition errPinyinFormat :: error where
  "errPinyinFormat = New (asc ''expected '[pinyin]' format'')"

definition errTwoHanziFields :: error where
  "errTwoHanziFields =
     New (asc ''expected two hanzi fields i.e. '' @ [0x27, 0x9F8D, 0x8C46, 0x20, 0x9F99, 0x8C46, 0x20, 0x27])"

definition Unmarshal :: "gostring \<Rightarrow> Entry outcome" where
  "Unmarshal s =
     (let fields = Split s 0x2F;
          off = Index (hd fields) 0x5B;
          endi = Index (hd fields) 0x5D
      in case (off, endi) of
           (Some off, Some endi) \<Rightarrow>
             if off + 1 > endi then Panic SliceBoundsOutOfRange
             else
               (let chars = take off (hd fields);
                    pinyin = take (endi - (off + 1)) (drop (off + 1) (hd fields))
                in case Sscanf_words chars of
                     (n, trad, sim, Some er) \<Rightarrow> Err (WithStack (ScanError er))
                   | (n, trad, sim, None) \<Rightarrow>
                       if n \<noteq> 2 then Err errTwoHanziFields
                       else if 1 > length fields - 1 then Panic SliceBoundsOutOfRange
                       else Ok \<lparr>Traditional = trad, Simplified = sim, Pinyin = pinyin,
                                 Meanings = take (length fields - 1 - 1) (drop 1 fields)\<rparr>)
         | _ \<Rightarrow> Err errPinyinFormat)"

subsection \<open>bufio.Scanner with the default split function (ScanLines)\<close>

text \<open>
  Each line is the text up to the next newline, without the newline and without one
  carriage return before it; text after the last newline is a line when it is not
  empty. The scanner's limit on the length of a line (64 KiB) is not modelled: the lines
  are taken to be shorter.
\<close>

definition dropCR :: "gostring \<Rightarrow> gostring" where
  "dropCR l = (if l \<noteq> [] \<and> last l = 0x0D then butlast l else l)"

fun ScanLines_from :: "gostring \<Rightarrow> gostring \<Rightarrow> gostring list" where
  "ScanLines_from cur [] = (if cur = [] then [] else [dropCR cur])"
| "ScanLines_from cur (r # rs) =
     (if r = 0x0A then dropCR cur # ScanLines_from [] rs else ScanLines_from (cur @ [r]) rs)"

definition ScanLines :: "gostring \<Rightarrow> gostring list" where
  "ScanLines text = ScanLines_from [] text"

subsection \<open>Parse\<close>

text \<open>
  \<^verbatim>\<open>time.Parse(time.RFC3339, v)\<close> is a parameter \<open>tp\<close> of the model: the instant a text
  denotes, or \<open>None\<close> for the library's error.

  The metadata of a line that starts with \<^verbatim>\<open>#!\<close>: \<^verbatim>\<open>i := strings.Index(line, "=")\<close>,
  \<^verbatim>\<open>v := line[i+1:]\<close>, \<^verbatim>\<open>k := line[3:i]\<close>. With no \<^verbatim>\<open>=\<close> in the line \<open>i\<close> is \<open>-1\<close>, and with
  the \<^verbatim>\<open>=\<close> right after \<^verbatim>\<open>#!\<close> it is \<open>2\<close>: the slice \<^verbatim>\<open>line[3:i]\<close> panics in both cases.
\<close>

definition metadata_key :: "gostring \<Rightarrow> nat option \<Rightarrow> sliced" where
  \<comment> \<open>\<^verbatim>\<open>line[3:i]\<close>\<close>
  "metadata_key line i =
     (case i of None \<Rightarrow> OutOfRange | Some p \<Rightarrow> slice_bytes line 3 (blen (take p line)))"

definition metadata_value :: "gostring \<Rightarrow> nat option \<Rightarrow> gostring" where
  \<comment> \<open>\<^verbatim>\<open>line[i+1:]\<close>\<close>
  "metadata_value line i = (case i of None \<Rightarrow> line | Some p \<Rightarrow> drop (p + 1) line)"

definition set_metadata :: "(gostring \<Rightarrow> time option) \<Rightarrow> gostring \<Rightarrow> gostring \<Rightarrow> Metadata \<Rightarrow> Metadata outcome" where
  \<comment> \<open>the \<^verbatim>\<open>switch k\<close>\<close>
  "set_metadata tp k v m =
     (if k = asc ''version'' then
        (case Atoi v of
           None \<Rightarrow> Err (Wrap (NumError v) (asc ''version: expected number''))
         | Some n \<Rightarrow> Ok (m\<lparr>Version := n\<rparr>))
      else if k = asc ''subversion'' then
        (case Atoi v of
           None \<Rightarrow> Err (Wrap (NumError v) (asc ''subversion: expected number''))
         | Some n \<Rightarrow> Ok (m\<lparr>Subversion := n\<rparr>))
      else if k = asc ''format'' then Ok (m\<lparr>Format := v\<rparr>)
      else if k = asc ''charset'' then Ok (m\<lparr>Charset := v\<rparr>)
      else if k = asc ''entries'' then
        (case Atoi v of
           None \<Rightarrow> Err (Wrap (NumError v) (asc ''entries: expected number''))
         | Some n \<Rightarrow> Ok (m\<lparr>Entries := n\<rparr>))
      else if k = asc ''publisher'' then Ok (m\<lparr>Publisher := v\<rparr>)
      else if k = asc ''license'' then Ok (m\<lparr>License := v\<rparr>)
      else if k = asc ''date'' then
        (case tp v of
           None \<Rightarrow> Err (Wrap (TimeParseError v) (asc ''date: expected RFC3339 format''))
         | Some t \<Rightarrow> Ok (m\<lparr>Timestamp := t\<rparr>))
      else Ok m)"

definition parse_line :: "(gostring \<Rightarrow> time option) \<Rightarrow> gostring \<Rightarrow> Dict \<Rightarrow> Dict outcome" where
  \<comment> \<open>the body of the scanning loop\<close>
  "parse_line tp line d =
     (if HasPrefix line (asc ''#'') then
        (let d1 = d\<lparr>d_header := d_header d @ [line]\<rparr>
         in if HasPrefix line (asc ''#!'') then
              (let i = Index line 0x3D;
                   v = metadata_value line i
               in case metadata_key line i of
                    OutOfRange \<Rightarrow> Panic SliceBoundsOutOfRange
                  | Broken \<Rightarrow> Ok d1
                  | Sub k \<Rightarrow>
                      (case set_metadata tp k v (d_md d1) of
                         Ok m \<Rightarrow> Ok (d1\<lparr>d_md := m\<rparr>)
                       | Err er \<Rightarrow> Err er
                       | Panic p \<Rightarrow> Panic p))
            else Ok d1)
      else
        (case Unmarshal line of
           Ok en \<Rightarrow> Ok (d\<lparr>d_e := d_e d @ [en]\<rparr>)
         | Err er \<Rightarrow> Err (Wrap er (asc ''unmarshal: '' @ line))
         | Panic p \<Rightarrow> Panic p))"

fun parse_lines :: "(gostring \<Rightarrow> time option) \<Rightarrow> gostring list \<Rightarrow> Dict \<Rightarrow> Dict outcome" where
  "parse_lines tp [] d = Ok d"
| "parse_lines tp (line # ls) d =
     (case parse_line tp line d of
        Ok d' \<Rightarrow> parse_lines tp ls d'
      | Err er \<Rightarrow> Err er
      | Panic p \<Rightarrow> Panic p)"

definition Parse :: "(gostring \<Rightarrow> time option) \<Rightarrow> gostring \<Rightarrow> Dict outcome" where
  "Parse tp text =
     (case parse_lines tp (ScanLines text) newDict of
        Ok d \<Rightarrow>
          if int (length (d_e d)) \<noteq> Entries (d_md d)
          then Err (EntriesMismatch (int (length (d_e d))) (Entries (d_md d)))
          else Ok (setReady d)
      | Err er \<Rightarrow> Err er
      | Panic p \<Rightarrow> Panic p)"

subsection \<open>What Parse counts and what it compares the count with\<close>

definition is_comment :: "gostring \<Rightarrow> bool" where
  "is_comment l = HasPrefix l (asc ''#'')"

definition entry_lines :: "gostring \<Rightarrow> gostring list" where
  \<comment> \<open>the lines of a text that Parse hands to \<^verbatim>\<open>Entry.Unmarshal\<close>\<close>
  "entry_lines text = filter (\<lambda>l. \<not> is_comment l) (ScanLines text)"

definition entries_decl :: "gostring \<Rightarrow> int option" where
  \<comment> \<open>the number a line declares under the key \<^verbatim>\<open>entries\<close>, if it declares one\<close>
  "entries_decl l =
     (if HasPrefix l (asc ''#!'') then
        (case metadata_key l (Index l 0x3D) of
           Sub k \<Rightarrow> if k = asc ''entries'' then Atoi (metadata_value l (Index l 0x3D)) else None
         | _ \<Rightarrow> None)
      else None)"

fun declared_entries :: "int \<Rightarrow> gostring list \<Rightarrow> int" where
  \<comment> \<open>the last declaration wins; \<open>n\<close> is the value before the first\<close>
  "declared_entries n [] = n"
| "declared_entries n (l # ls) =
     declared_entries (case entries_decl l of Some k \<Rightarrow> k | None \<Rightarrow> n) ls"

section \<open>Saving a dictionary\<close>

text \<open>
  \<^verbatim>\<open>Dict.Save\<close> on a dictionary that is ready (\<^verbatim>\<open>lazyLoad\<close> returns at once), for a file
  name that does not end in \<^verbatim>\<open>.gz\<close>, when the file opens and every write succeeds: the
  bytes the two loops write, in order. The first loop appends the line ending to every
  header line but the last; the second writes the line ending before each entry.
\<close>

fun Save_header :: "nat \<Rightarrow> nat \<Rightarrow> gostring list \<Rightarrow> gostring" where
  "Save_header n i [] = []"
| "Save_header n i (line # ls) =
     (if int i \<noteq> int n - 1 then line @ LineEnding else line) @ Save_header n (i + 1) ls"

fun Save_entries :: "Entry list \<Rightarrow> gostring" where
  "Save_entries [] = []"
| "Save_entries (e # es) = (LineEnding @ Marshal e) @ Save_entries es"

definition Save :: "Dict \<Rightarrow> gostring" where
  "Save d = Save_header (length (d_header d)) 0 (d_header d) @ Save_entries (d_e d)"

subsection \<open>Well-formed texts\<close>

text \<open>
  A text is well formed when each of its lines is a comment line or has the shape
  \<^verbatim>\<open>TRADITIONAL SIMPLIFIED [PINYIN] /MEANING/.../\<close> in as far as this: it starts with
  the first word (no white space in front of it), and its meanings stand between
  slashes, of which there are then two or more; and when no line keeps a carriage return
  of its own at its end, the lines being ended by the line ending or by a newline. That
  the two words and the brackets are there is what Parse checks.
\<close>

definition wf_line :: "gostring \<Rightarrow> bool" where
  "wf_line l =
     ((l = [] \<or> last l \<noteq> 0x0D)
      \<and> (is_comment l \<or> (l \<noteq> [] \<and> \<not> isSpace (hd l) \<and> 2 \<le> count_list l 0x2F)))"

definition well_formed :: "gostring \<Rightarrow> bool" where
  "well_formed text = list_all wf_line (ScanLines text)"

section \<open>Levenshtein distance\<close>

text \<open>
  \<^verbatim>\<open>min\<close>, and the two loops of \<^verbatim>\<open>levenshtein\<close>: \<open>lev_inner\<close> is the loop over \<open>j\<close> with
  its variables \<open>ld\<close> and \<open>prev\<close> (\<open>curr\<close> is local to one round), \<open>lev_outer\<close> the loop over
  \<open>i\<close>. The slices \<open>s1\<close>, \<open>s2\<close> are the runes of the two strings; the test that swaps them
  compares the lengths in bytes. Every index is within the slice it reads (\<open>j \<le> l1\<close>,
  \<open>i \<le> l2\<close>, and \<open>ld\<close> has \<open>l1 + 1\<close> elements), and the values stay below the sum of the two
  lengths, far from the limits of Go's \<^verbatim>\<open>int\<close>.
\<close>

definition min3 :: "int \<Rightarrow> int \<Rightarrow> int \<Rightarrow> int" where
  "min3 x y z = (if x < y then (if x < z then x else z) else if y < z then y else z)"

function lev_inner :: "gostring \<Rightarrow> rune \<Rightarrow> nat \<Rightarrow> int list \<Rightarrow> int \<Rightarrow> int list \<times> int" where
  "lev_inner s1 c j ld prev =
     (if j \<le> length s1 then
        (let curr = (if c = s1 ! (j - 1) then ld ! (j - 1)
                     else min3 (ld ! (j - 1) + 1) (prev + 1) (ld ! j + 1))
         in lev_inner s1 c (j + 1) (ld[j - 1 := prev]) curr)
      else (ld, prev))"
  by pat_completeness auto
termination
  by (relation "measure (\<lambda>(s1, c, j, ld, prev). length s1 + 1 - j)") auto

function lev_outer :: "gostring \<Rightarrow> gostring \<Rightarrow> nat \<Rightarrow> int list \<Rightarrow> int list" where
  "lev_outer s1 s2 i ld =
     (if i \<le> length s2 then
        (case lev_inner s1 (s2 ! (i - 1)) 1 ld (int i) of
           (ld', prev) \<Rightarrow> lev_outer s1 s2 (i + 1) (ld'[length s1 := prev]))
      else ld)"
  by pat_completeness auto
termination
  by (relation "measure (\<lambda>(s1, s2, i, ld). length s2 + 1 - i)") auto

definition levenshtein :: "gostring \<Rightarrow> gostring \<Rightarrow> int" where
  "levenshtein src dst =
     (if src = dst then 0
      else (let s1 = (if blen src > blen dst then dst else src);
                s2 = (if blen src > blen dst then src else dst);
                l1 = length s1;
                ld = map int [0..<l1 + 1]
            in lev_outer s1 s2 1 ld ! l1))"

text \<open>
  The reference the code is compared with: the edit distance by its recurrences
  (substitute, delete, insert).
\<close>

fun ed :: "'a list \<Rightarrow> 'a list \<Rightarrow> nat" where
  "ed [] ys = length ys"
| "ed (x # xs) [] = Suc (length xs)"
| "ed (x # xs) (y # ys) =
     min (ed xs ys + (if x = y then 0 else 1)) (min (ed xs (y # ys) + 1) (ed (x # xs) ys + 1))"

text \<open>
  What the table of the code holds in row \<open>i\<close>, column \<open>j\<close>: the distance between the first
  \<open>i\<close> runes of \<open>s2\<close> and the first \<open>j\<close> runes of \<open>s1\<close>.
\<close>

definition ed_prefix :: "gostring \<Rightarrow> gostring \<Rightarrow> nat \<Rightarrow> nat \<Rightarrow> int" where
  "ed_prefix s1 s2 i j = int (ed (rev (take i s2)) (rev (take j s1)))"

section \<open>Unicode tables of the library\<close>

text \<open>
  The package reads Unicode through the Go library: \<^verbatim>\<open>strings.ToLower\<close> and
  \<^verbatim>\<open>strings.ToUpper\<close> (the case mappings of package \<^verbatim>\<open>unicode\<close>, applied rune by rune),
  \<^verbatim>\<open>unicode.Han\<close>, \<^verbatim>\<open>unicode.IsDigit\<close>, and the normal forms NFD and NFC of
  \<^verbatim>\<open>golang.org/x/text\<close>. None of these tables is part of the repository; the model takes
  them as a parameter \<open>U\<close>. A general theorem holds for every \<open>U\<close>. \<open>ascii_tables\<close> is
  one instance, used where a theorem is evaluated on a sample: it agrees with Unicode
  on ASCII text and on the block of CJK unified ideographs U+4E00 to U+9FA5.
\<close>

record unicode =
  unicode_ToLower :: "rune \<Rightarrow> rune"
  unicode_ToUpper :: "rune \<Rightarrow> rune"
  unicode_Han :: "rune \<Rightarrow> bool"
  unicode_IsDigit :: "rune \<Rightarrow> bool"
  norm_NFD :: "gostring \<Rightarrow> gostring"
  norm_NFC :: "gostring \<Rightarrow> gostring"

definition ascii_tables :: unicode where
  "ascii_tables =
     \<lparr>unicode_ToLower = (\<lambda>r. if 0x41 \<le> r \<and> r \<le> 0x5A then r + 0x20 else r),
      unicode_ToUpper = (\<lambda>r. if 0x61 \<le> r \<and> r \<le> 0x7A then r - 0x20 else r),
      unicode_Han = (\<lambda>r. 0x4E00 \<le> r \<and> r \<le> 0x9FA5),
      unicode_IsDigit = (\<lambda>r. 0x30 \<le> r \<and> r \<le> 0x39),
      norm_NFD = (\<lambda>s. s),
      norm_NFC = (\<lambda>s. s)\<rparr>"

text \<open>
  What a table has to share with Unicode for the samples: the case mappings of ASCII, no
  Han rune in ASCII, and the Han runes of the block U+4E00 to U+9FA5.
\<close>

definition standard_tables :: "unicode \<Rightarrow> bool" where
  "standard_tables U =
     ((\<forall>r. r < 0x80 \<longrightarrow> unicode_ToLower U r = unicode_ToLower ascii_tables r
                      \<and> unicode_ToUpper U r = unicode_ToUpper ascii_tables r
                      \<and> \<not> unicode_Han U r)
      \<and> (\<forall>r. 0x4E00 \<le> r \<and> r \<le> 0x9FA5 \<longrightarrow> unicode_Han U r))"

definition ToLower :: "unicode \<Rightarrow> gostring \<Rightarrow> gostring" where
  "ToLower U s = map (unicode_ToLower U) s"

definition ToUpper :: "unicode \<Rightarrow> gostring \<Rightarrow> gostring" where
  "ToUpper U s = map (unicode_ToUpper U) s"

fun Contains :: "gostring \<Rightarrow> gostring \<Rightarrow> bool" where
  \<comment> \<open>\<^verbatim>\<open>strings.Contains(s, substr)\<close>: in valid UTF-8 a substring starts and ends at rune
      boundaries\<close>
  "Contains [] sub = (sub = [])"
| "Contains (r # rs) sub = (HasPrefix (r # rs) sub \<or> Contains rs sub)"

fun IndexAny :: "gostring \<Rightarrow> gostring \<Rightarrow> nat option" where
  \<comment> \<open>the position (in runes) of the first rune of \<open>s\<close> that occurs in \<open>chars\<close>\<close>
  "IndexAny [] chars = None"
| "IndexAny (r # rs) chars = (if r \<in> set chars then Some 0 else map_option Suc (IndexAny rs chars))"

function ReplaceAll :: "gostring \<Rightarrow> gostring \<Rightarrow> gostring \<Rightarrow> gostring" where
  \<comment> \<open>\<^verbatim>\<open>strings.ReplaceAll(s, old, new)\<close> for a non-empty \<open>old\<close>, the only use the package makes\<close>
  "ReplaceAll [] old new = []"
| "ReplaceAll (r # rs) old new =
     (if old \<noteq> [] \<and> HasPrefix (r # rs) old
      then new @ ReplaceAll (drop (length old) (r # rs)) old new
      else r # ReplaceAll rs old new)"
  by pat_completeness auto
termination
  by (relation "measure (\<lambda>(s, old, new). length s)") auto

definition StripDigits :: "unicode \<Rightarrow> gostring \<Rightarrow> gostring" where
  "StripDigits U s = norm_NFC U (filter (\<lambda>r. \<not> unicode_IsDigit U r) (norm_NFD U s))"

section \<open>Lookups\<close>

text \<open>
  Every method of \<^verbatim>\<open>Dict\<close> first calls \<^verbatim>\<open>lazyLoad\<close>. The lookups are modelled on a
  dictionary that is ready, where that call returns at once; they read the entries only.
\<close>

definition MaxResults :: nat where
  "MaxResults = 50"

definition MaxLD :: int where
  "MaxLD = 10"

definition GetByHanzi :: "Dict \<Rightarrow> gostring \<Rightarrow> Entry option" where
  \<comment> \<open>\<open>None\<close> is the \<^verbatim>\<open>nil\<close> entry\<close>
  "GetByHanzi d s =
     find (\<lambda>e. Traditional e = TrimSpace s \<or> Simplified e = TrimSpace s) (d_e d)"

fun meaning_loop :: "unicode \<Rightarrow> gostring \<Rightarrow> gostring list \<Rightarrow> int option" where
  \<comment> \<open>the loop over \<^verbatim>\<open>e.Meanings\<close>: \<open>Some ld\<close> when it is left by \<^verbatim>\<open>continue nextEntry\<close>\<close>
  "meaning_loop U s [] = None"
| "meaning_loop U s (m # ms) =
     (let m' = ToLower U m
      in if Contains s m' then
           (let ld = levenshtein s m'
            in if ld \<le> MaxLD then Some ld else meaning_loop U s ms)
         else meaning_loop U s ms)"

text \<open>
  The map \<^verbatim>\<open>lev\<close> is keyed by the pointer to an entry. The model keys it by the entry
  itself: two entries with the same fields get the same distance from the same query, so
  the two maps give every result the same key for the sort.
\<close>

fun entry_loop :: "unicode \<Rightarrow> gostring \<Rightarrow> Entry list \<Rightarrow> Entry list \<times> (Entry \<rightharpoonup> int)
    \<Rightarrow> Entry list \<times> (Entry \<rightharpoonup> int)" where
  "entry_loop U s [] (results, lev) = (results, lev)"
| "entry_loop U s (e # es) (results, lev) =
     (case meaning_loop U s (Meanings e) of
        None \<Rightarrow> entry_loop U s es (results, lev)
      | Some ld \<Rightarrow> entry_loop U s es (results @ [e], lev(e \<mapsto> ld)))"

definition lev_at :: "(Entry \<rightharpoonup> int) \<Rightarrow> Entry \<Rightarrow> int" where
  \<comment> \<open>\<^verbatim>\<open>lev[e]\<close>: zero for a key that is not in the map\<close>
  "lev_at lev e = (case lev e of Some n \<Rightarrow> n | None \<Rightarrow> 0)"

definition GetByMeaning :: "unicode \<Rightarrow> Dict \<Rightarrow> gostring \<Rightarrow> Entry list" where
  \<comment> \<open>\<^verbatim>\<open>sort.SliceStable\<close> is a stable sort, as \<open>sort_key\<close> is\<close>
  "GetByMeaning U d s =
     (case entry_loop U (ToLower U s) (d_e d) ([], Map.empty) of
        (results, lev) \<Rightarrow>
          (let sorted = sort_key (lev_at lev) results
           in if length sorted > MaxResults then take MaxResults sorted else sorted))"

text \<open>
  The reading of the meaning lookup in the specification, for comparison with the code:
  of the meanings that the query contains only the first is looked at, and the entry is
  dropped when that one is too far from the query.
\<close>

definition first_contained :: "unicode \<Rightarrow> gostring \<Rightarrow> Entry \<Rightarrow> gostring option" where
  "first_contained U s e = find (\<lambda>m. Contains s (ToLower U m)) (Meanings e)"

definition claimed_match :: "unicode \<Rightarrow> gostring \<Rightarrow> Entry \<Rightarrow> bool" where
  "claimed_match U s e =
     (case first_contained U s e of
        None \<Rightarrow> False
      | Some m \<Rightarrow> levenshtein s (ToLower U m) \<le> MaxLD)"

definition claimed_dist :: "unicode \<Rightarrow> gostring \<Rightarrow> Entry \<Rightarrow> int" where
  "claimed_dist U s e =
     (case first_contained U s e of None \<Rightarrow> 0 | Some m \<Rightarrow> levenshtein s (ToLower U m))"

definition GetByMeaning_claimed :: "unicode \<Rightarrow> Dict \<Rightarrow> gostring \<Rightarrow> Entry list" where
  "GetByMeaning_claimed U d s =
     take MaxResults (sort_key (claimed_dist U (ToLower U s))
       (filter (claimed_match U (ToLower U s)) (d_e d)))"

text \<open>
  What the code does instead: the first meaning that the query contains and that is
  within the maximum distance decides.
\<close>

definition first_match :: "unicode \<Rightarrow> gostring \<Rightarrow> Entry \<Rightarrow> gostring option" where
  "first_match U s e =
     find (\<lambda>m. Contains s (ToLower U m) \<and> levenshtein s (ToLower U m) \<le> MaxLD) (Meanings e)"

definition match_dist :: "unicode \<Rightarrow> gostring \<Rightarrow> Entry \<Rightarrow> int" where
  "match_dist U s e =
     (case first_match U s e of None \<Rightarrow> 0 | Some m \<Rightarrow> levenshtein s (ToLower U m))"

section \<open>The tone codec\<close>

definition vowels :: gostring where
  "vowels = [0x41, 0x61, 0x45, 0x65, 0x69, 0x4F, 0x6F, 0x75, 0xFC, 0x72]"

definition toneNums :: gostring where
  "toneNums = asc ''12345''"

definition mapNumToTone_table :: "(rune \<times> rune list) list" where
  "mapNumToTone_table =
     [
      (0x41, [0x100, 0xC1, 0x1CD, 0xC0, 0x41]),
      (0x61, [0x101, 0xE1, 0x1CE, 0xE0, 0x61]),
      (0x45, [0x112, 0xC9, 0x11A, 0xC8, 0x45]),
      (0x65, [0x113, 0xE9, 0x11B, 0xE8, 0x65]),
      (0x69, [0x12B, 0xED, 0x1D0, 0xEC, 0x69]),
      (0x4F, [0x14C, 0xD3, 0x1D1, 0xD2, 0x4F]),
      (0x6F, [0x14D, 0xF3, 0x1D2, 0xF2, 0x6F]),
      (0x75, [0x16B, 0xFA, 0x1D4, 0xF9, 0x75]),
      (0xFC, [0x1D6, 0x1D8, 0x1DA, 0x1DC, 0xFC]),
      (0x72, [0x72, 0x72, 0x72, 0x72, 0x72])]"

definition mapNumToTone :: "rune \<Rightarrow> rune list option" where
  \<comment> \<open>\<open>None\<close> is the \<^verbatim>\<open>nil\<close> slice of a key that is not in the map\<close>
  "mapNumToTone k = map_of mapNumToTone_table k"

definition mapToneToNum_table :: "(rune \<times> gostring) list" where
  "mapToneToNum_table =
     [
      (0x100, asc ''A1''), (0xC1, asc ''A2''), (0x1CD, asc ''A3''), (0xC0, asc ''A4''),
      (0x101, asc ''a1''), (0xE1, asc ''a2''), (0x1CE, asc ''a3''), (0xE0, asc ''a4''),
      (0x112, asc ''E1''), (0xC9, asc ''E2''), (0x11A, asc ''E3''), (0xC8, asc ''E4''),
      (0x113, asc ''e1''), (0xE9, asc ''e2''), (0x11B, asc ''e3''), (0xE8, asc ''e4''),
      (0x12B, asc ''i1''), (0xED, asc ''i2''), (0x1D0, asc ''i3''), (0xEC, asc ''i4''),
      (0x14C, asc ''O1''), (0xD3, asc ''O2''), (0x1D1, asc ''O3''), (0xD2, asc ''O4''),
      (0x14D, asc ''o1''), (0xF3, asc ''o2''), (0x1D2, asc ''o3''), (0xF2, asc ''o4''),
      (0x16B, asc ''u1''), (0xFA, asc ''u2''), (0x1D4, asc ''u3''), (0xF9, asc ''u4''),
      (0xFC, asc ''u: ''), (0x1D6, asc ''u:1''), (0x1D8, asc ''u:2''), (0x1DA, asc ''u:3''),
      (0x1DC, asc ''u:4'')]"

definition mapToneToNum :: "rune \<Rightarrow> gostring" where
  \<comment> \<open>the empty string for a key that is not in the map\<close>
  "mapToneToNum r = (case map_of mapToneToNum_table r of Some m \<Rightarrow> m | None \<Rightarrow> [])"

fun nums_runes :: "gostring \<Rightarrow> gostring \<Rightarrow> gostring \<Rightarrow> gostring \<times> gostring" where
  \<comment> \<open>the loop over the runes of a word, on \<open>result\<close> and \<open>tone\<close>\<close>
  "nums_runes [] result tone = (result, tone)"
| "nums_runes (r # rs) result tone =
     (let m = mapToneToNum r
      in if m \<noteq> [] then nums_runes rs (result @ butlast m) (TrimSpace [last m])
         else nums_runes rs (result @ [r]) tone)"

fun nums_words :: "gostring list \<Rightarrow> gostring \<Rightarrow> gostring" where
  "nums_words [] result = result"
| "nums_words (w # ws) result =
     (case nums_runes w result [] of
        (result', tone) \<Rightarrow> nums_words ws (result' @ tone @ asc '' ''))"

definition PinyinToneNums :: "gostring \<Rightarrow> gostring" where
  "PinyinToneNums s = TrimSpace (nums_words (Split s 0x20) [])"

fun guessToneIndex_from :: "gostring \<Rightarrow> gostring \<Rightarrow> nat option" where
  "guessToneIndex_from [] s = None"
| "guessToneIndex_from (v # vs) s =
     (case Index s v of Some i \<Rightarrow> Some i | None \<Rightarrow> guessToneIndex_from vs s)"

definition guessToneIndex :: "gostring \<Rightarrow> nat option" where
  \<comment> \<open>the index in runes; \<open>None\<close> is \<open>-1\<close>\<close>
  "guessToneIndex s = guessToneIndex_from vowels s"

text \<open>
  One round of the loop of \<^verbatim>\<open>PinyinTones\<close>: the text the word adds to \<^verbatim>\<open>result\<close>. The index
  \<open>i\<close> of the vowel is taken before the digit is cut out of the word and used after: with
  the digit in front of the vowel it points one rune too far, and \<^verbatim>\<open>runes[i]\<close> or the
  index into the \<^verbatim>\<open>nil\<close> slice of a rune that is no vowel panics.
\<close>

definition tone_word :: "gostring \<Rightarrow> gostring outcome" where
  "tone_word w =
     (case guessToneIndex w of
        None \<Rightarrow> Ok (w @ asc '' '')
      | Some i \<Rightarrow>
          (case IndexAny w toneNums of
             None \<Rightarrow> Ok (w @ asc '' '')
           | Some numIndex \<Rightarrow>
               (let tone = int (w ! numIndex) - 0x30 - 1
                in if tone < 0 \<or> tone \<ge> int (length mapNumToTone_table) then Ok (w @ asc '' '')
                   else
                     (let runes = take numIndex w @ drop (numIndex + 1) w
                      in if i \<ge> length runes then Panic IndexOutOfRange
                         else
                           (case mapNumToTone (runes ! i) of
                              None \<Rightarrow> Panic IndexOutOfRange
                            | Some ts \<Rightarrow>
                                if nat tone \<ge> length ts then Panic IndexOutOfRange
                                else Ok (take i runes @ [ts ! nat tone] @ drop (i + 1) runes
                                          @ asc '' ''))))))"

fun tones_words :: "gostring list \<Rightarrow> gostring \<Rightarrow> gostring outcome" where
  "tones_words [] result = Ok result"
| "tones_words (w # ws) result =
     (case tone_word w of
        Ok t \<Rightarrow> tones_words ws (result @ t)
      | Err er \<Rightarrow> Err er
      | Panic p \<Rightarrow> Panic p)"

definition PinyinTones :: "gostring \<Rightarrow> gostring outcome" where
  "PinyinTones s =
     (case tones_words (Split (ReplaceAll s (asc ''u:'') [0xFC]) 0x20) [] of
        Ok result \<Rightarrow> Ok (TrimSpace result)
      | Err er \<Rightarrow> Err er
      | Panic p \<Rightarrow> Panic p)"

text \<open>
  The alphabet of the specification, the letters that come back unchanged, those among
  them that carry a tone mark, and what the two tables must do for a vowel \<open>k\<close> and a
  digit \<open>t\<close> for the two conversions to be inverse.
\<close>

definition tone_alphabet :: gostring where
  "tone_alphabet = vowels @ toneNums"

definition tone_letters :: gostring where
  "tone_letters = [0x41, 0x61, 0x45, 0x65, 0x69, 0x4F, 0x6F, 0x75, 0x72]"

definition marked_vowels :: gostring where
  "marked_vowels = [0x41, 0x61, 0x45, 0x65, 0x69, 0x4F, 0x6F, 0x75]"

definition tone_of :: "rune \<Rightarrow> nat" where
  "tone_of t = nat (int t - 0x30 - 1)"

definition tone_ok :: "rune \<Rightarrow> rune \<Rightarrow> bool" where
  "tone_ok k t =
     (case mapNumToTone k of
        None \<Rightarrow> False
      | Some ts \<Rightarrow> tone_of t < length ts \<and> mapToneToNum (ts ! tone_of t) = [k, t]
          \<and> \<not> isSpace (ts ! tone_of t))"

section \<open>Lookup by pinyin\<close>

fun pinyin_loop :: "unicode \<Rightarrow> bool \<Rightarrow> gostring \<Rightarrow> Entry list \<Rightarrow> Entry list \<Rightarrow> Entry list" where
  "pinyin_loop U isPlaintext s [] results = results"
| "pinyin_loop U isPlaintext s (e # es) results =
     (let p = ReplaceAll (ToLower U (Pinyin e)) (asc '' '') [];
          p' = (if isPlaintext then StripDigits U p else p)
      in pinyin_loop U isPlaintext s es (if p' = s then results @ [e] else results))"

definition GetByPinyin :: "unicode \<Rightarrow> Dict \<Rightarrow> gostring \<Rightarrow> Entry list" where
  \<comment> \<open>Go compares strings byte by byte, which on UTF-8 is the order of the rune lists\<close>
  "GetByPinyin U d s =
     (let s1 = PinyinToneNums s;
          isPlaintext = (IndexAny s1 toneNums = None);
          s2 = ReplaceAll (ToLower U s1) (asc '' '') []
      in sort_key Pinyin (pinyin_loop U isPlaintext s2 (d_e d) []))"

text \<open>
  The reading of the specification, for comparison: a query with any digit in it, also
  one that names no tone such as the 6 of \<^verbatim>\<open>zhong6\<close>, is compared as it is.
\<close>

definition GetByPinyin_claimed :: "unicode \<Rightarrow> Dict \<Rightarrow> gostring \<Rightarrow> Entry list" where
  "GetByPinyin_claimed U d s =
     (let s1 = PinyinToneNums s;
          isPlaintext = list_all (\<lambda>r. \<not> unicode_IsDigit U r) s1;
          s2 = ReplaceAll (ToLower U s1) (asc '' '') []
      in sort_key Pinyin (pinyin_loop U isPlaintext s2 (d_e d) []))"

text \<open>What the code compares an entry with.\<close>

definition candidate :: "unicode \<Rightarrow> bool \<Rightarrow> Entry \<Rightarrow> gostring" where
  "candidate U isPlaintext e =
     (if isPlaintext then StripDigits U (ReplaceAll (ToLower U (Pinyin e)) (asc '' '') [])
      else ReplaceAll (ToLower U (Pinyin e)) (asc '' '') [])"

definition is_plaintext :: "gostring \<Rightarrow> bool" where
  "is_plaintext q = (IndexAny (PinyinToneNums q) toneNums = None)"

definition normal_query :: "unicode \<Rightarrow> gostring \<Rightarrow> gostring" where
  "normal_query U q = ReplaceAll (ToLower U (PinyinToneNums q)) (asc '' '') []"

definition strips_all_digits :: "unicode \<Rightarrow> bool" where
  "strips_all_digits U = (\<forall>s. list_all (\<lambda>r. \<not> unicode_IsDigit U r) (StripDigits U s))"

section \<open>Transliteration\<close>

definition symbols_table :: "(rune \<times> gostring) list" where
  "symbols_table =
     [
      (0xFF1F, asc ''?''), (0xFF01, asc ''!''), (0xFF1A, asc '':''), (0x3002, asc ''.''),
      (0x30FB, asc ''.''), (0xFF0C, asc '',''), (0xFF1B, asc '';''), (0xFF08, asc ''(''),
      (0xFF09, asc '')''), (0x3010, asc ''[''), (0x3011, asc '']'')]"

definition ConvertSymbols :: "gostring \<Rightarrow> gostring" where
  "ConvertSymbols s =
     concat (map (\<lambda>r. case map_of symbols_table r of Some t \<Rightarrow> t | None \<Rightarrow> [r]) s)"

definition FixSymbolSpaces :: "gostring \<Rightarrow> gostring" where
  "FixSymbolSpaces s =
     (let s = ReplaceAll s (asc '' ?'') (asc ''?'');
          s = ReplaceAll s (asc '' .'') (asc ''.'');
          s = ReplaceAll s (asc '' !'') (asc ''!'');
          s = ReplaceAll s (asc '' :'') (asc '':'');
          s = ReplaceAll s (asc '' ;'') (asc '';'');
          s = ReplaceAll s (asc '' ,'') (asc '','');
          s = ReplaceAll s (asc ''[ '') (asc ''['');
          s = ReplaceAll s (asc '' ]'') (asc '']'');
          s = ReplaceAll s (asc ''( '') (asc ''('');
          s = ReplaceAll s (asc '' )'') (asc '')'')
      in s)"

text \<open>
  The search for the longest entry at a Han rune: \<open>rest\<close> is \<^verbatim>\<open>runes[i:]\<close>, and the lengths
  \<open>j - i\<close> are tried from the longest down to one. \<open>Some (n, e)\<close> is the entry found for the
  first \<open>n + 1\<close> runes.
\<close>

fun match_longest :: "Dict \<Rightarrow> gostring \<Rightarrow> nat \<Rightarrow> (nat \<times> Entry) option" where
  "match_longest d rest 0 = None"
| "match_longest d rest (Suc n) =
     (case GetByHanzi d (take (Suc n) rest) of
        Some e \<Rightarrow> Some (n, e)
      | None \<Rightarrow> match_longest d rest n)"

text \<open>
  The loop over \<open>i\<close>, on \<open>rest = runes[i:]\<close> and \<open>p\<close>. At a rune that is not Han, the inner
  loop copies runes up to the next Han rune, and a space follows.
\<close>

function segment :: "unicode \<Rightarrow> Dict \<Rightarrow> gostring \<Rightarrow> gostring \<Rightarrow> gostring" where
  "segment U d [] p = p"
| "segment U d (r # rs) p =
     (if \<not> unicode_Han U r then
        segment U d (dropWhile (\<lambda>c. \<not> unicode_Han U c) rs)
          (p @ [r] @ takeWhile (\<lambda>c. \<not> unicode_Han U c) rs @ asc '' '')
      else
        (case match_longest d (r # rs) (length (r # rs)) of
           Some (n, e) \<Rightarrow> segment U d (drop n rs) (p @ Pinyin e @ asc '' '')
         | None \<Rightarrow> segment U d rs (p @ [r])))"
  by pat_completeness auto
termination
  by (relation "measure (\<lambda>(U, d, rest, p). length rest)")
    (auto simp: length_dropWhile_le less_Suc_eq_le)

text \<open>
  The last line, \<^verbatim>\<open>strings.ToUpper(p[:1]) + strings.ToLower(strings.TrimSpace(p[1:]))\<close>,
  cuts \<open>p\<close> after its first byte. When the first rune is longer than a byte, both parts
  are broken UTF-8: the case mappings turn each byte of the broken rune into U+FFFD, and
  \<^verbatim>\<open>TrimSpace\<close> finds no space to trim in front of them.
\<close>

definition capitalize :: "unicode \<Rightarrow> gostring \<Rightarrow> gostring outcome" where
  "capitalize U p =
     (case p of
        [] \<Rightarrow> Panic SliceBoundsOutOfRange
      | r # rs \<Rightarrow>
          if utf8_len r = 1 then Ok (ToUpper U [r] @ ToLower U (TrimSpace rs))
          else Ok (0xFFFD # replicate (utf8_len r - 1) 0xFFFD
                   @ ToLower U (rev (dropWhile isSpace (rev rs)))))"

definition HanziToPinyin :: "unicode \<Rightarrow> Dict \<Rightarrow> gostring \<Rightarrow> gostring outcome" where
  "HanziToPinyin U d s =
     (if blen (TrimSpace s) = 0 then Ok []
      else capitalize U (segment U d (ConvertSymbols (TrimSpace s)) []))"

section \<open>Lazy population\<close>

text \<open>
  \<^verbatim>\<open>Download\<close> reads the network. The world outside is a state of its own: the outcome of
  each request in turn (an error, or the text the reader delivers), and the number of
  requests made so far. \<^verbatim>\<open>lazyLoad\<close> holds the mutex from its first statement to its last,
  so a call is one step on the dictionary and the world.
\<close>

record world =
  responses :: "nat \<Rightarrow> error + gostring"
  calls :: nat

definition Download :: "world \<Rightarrow> (error + gostring) \<times> world" where
  "Download w = (responses w (calls w), w\<lparr>calls := calls w + 1\<rparr>)"

definition lazyLoad :: "(gostring \<Rightarrow> time option) \<Rightarrow> Dict \<Rightarrow> world \<Rightarrow> (Dict \<times> world) outcome" where
  "lazyLoad tp d w =
     (if \<not> isReady d then
        (case Download w of
           (Inl er, w') \<Rightarrow> Ok (d\<lparr>d_err := Some (WithStack er)\<rparr>, w')
         | (Inr text, w') \<Rightarrow>
             (case Parse tp text of
                Err er \<Rightarrow> Ok (d\<lparr>d_err := Some (WithStack er)\<rparr>, w')
              | Panic p \<Rightarrow> Panic p
              | Ok dict \<Rightarrow>
                  Ok (setReady (d\<lparr>d_e := d_e dict, d_md := d_md dict, d_header := d_header dict\<rparr>),
                      w')))
      else Ok (d, w))"

definition Err_method :: "(gostring \<Rightarrow> time option) \<Rightarrow> Dict \<Rightarrow> world \<Rightarrow> (error option \<times> Dict \<times> world) outcome" where
  \<comment> \<open>the method \<^verbatim>\<open>Err\<close>\<close>
  "Err_method tp d w =
     (case lazyLoad tp d w of
        Ok (d', w') \<Rightarrow> Ok (d_err d', d', w')
      | Err er \<Rightarrow> Err er
      | Panic p \<Rightarrow> Panic p)"

fun lazyLoads :: "(gostring \<Rightarrow> time option) \<Rightarrow> nat \<Rightarrow> Dict \<Rightarrow> world \<Rightarrow> (Dict \<times> world) outcome" where
  \<comment> \<open>\<open>n\<close> calls in a row\<close>
  "lazyLoads tp 0 d w = Ok (d, w)"
| "lazyLoads tp (Suc n) d w =
     (case lazyLoad tp d w of
        Ok (d', w') \<Rightarrow> lazyLoads tp n d' w'
      | Err er \<Rightarrow> Err er
      | Panic p \<Rightarrow> Panic p)"

definition attempt_fails :: "(gostring \<Rightarrow> time option) \<Rightarrow> error + gostring \<Rightarrow> error option" where
  \<comment> \<open>the error of an attempt at population that fails\<close>
  "attempt_fails tp r =
     (case r of
        Inl er \<Rightarrow> Some er
      | Inr text \<Rightarrow> (case Parse tp text of Err er \<Rightarrow> Some er | _ \<Rightarrow> None))"

section \<open>Sample inputs\<close>

definition sample_text :: "int \<Rightarrow> gostring" where
  \<comment> \<open>a header that declares \<open>n\<close> entries, and two entry lines\<close>
  "sample_text n = asc ''#! version=123'' @ LineEnding
     @ (if n = 2 then asc ''#! entries=2'' else asc ''#! entries=1'') @ LineEnding
     @ asc ''a b [x] /m/'' @ LineEnding
     @ asc ''c d [y] /n/o/''"

definition sample_lines :: "int \<Rightarrow> Dict" where
  "sample_lines n =
     \<lparr>d_e = [\<lparr>Traditional = asc ''a'', Simplified = asc ''b'', Pinyin = asc ''x'',
                Meanings = [asc ''m'']\<rparr>,
             \<lparr>Traditional = asc ''c'', Simplified = asc ''d'', Pinyin = asc ''y'',
                Meanings = [asc ''n'', asc ''o'']\<rparr>],
      d_md = zero_Metadata\<lparr>Version := 123, Entries := (if n = 2 then 2 else 1)\<rparr>,
      d_ready = False,
      d_header = [asc ''#! version=123'',
                  if n = 2 then asc ''#! entries=2'' else asc ''#! entries=1''],
      d_err = None\<rparr>"

definition meaning_sample :: Dict where
  "meaning_sample = newDict\<lparr>d_e := [\<lparr>Traditional = asc ''x'', Simplified = asc ''x'', Pinyin = asc ''a1'',
      Meanings = [asc ''a'', asc ''abcdefghijkl'']\<rparr>], d_ready := True\<rparr>"

definition pinyin_sample :: Dict where
  "pinyin_sample = newDict\<lparr>d_e := [\<lparr>Traditional = [0x4E2D], Simplified = [0x4E2D], Pinyin = asc ''zhong6'',
      Meanings = [asc ''middle'']\<rparr>], d_ready := True\<rparr>"

definition translit_sample :: Dict where
  "translit_sample = newDict\<lparr>d_e :=
     [\<lparr>Traditional = [0x6211], Simplified = [0x6211], Pinyin = asc ''wo3'', Meanings = [asc ''I'']\<rparr>,
      \<lparr>Traditional = [0x7684], Simplified = [0x7684], Pinyin = asc ''de5'', Meanings = [asc ''of'']\<rparr>,
      \<lparr>Traditional = [0x5927, 0x738B], Simplified = [0x5927, 0x738B], Pinyin = asc ''da4 wang2'',
         Meanings = [asc ''king'']\<rparr>],
     d_ready := True\<rparr>"

definition flaky_world :: world where
  \<comment> \<open>two requests fail, each in its own way, and every later one delivers the sample text\<close>
  "flaky_world =
     \<lparr>responses = (\<lambda>k. if k = 0 then Inl (DownloadError (asc ''bad status: 503''))
                        else if k = 1 then Inl (DownloadError (asc ''gzip: invalid header''))
                        else Inr (sample_text 2)),
      calls = 0\<rparr>"

definition roundtrip_text :: gostring where
  \<comment> \<open>newlines for line endings, a comment between the entries, a third word\<close>
  "roundtrip_text = asc ''#! entries=2'' @ [0x0A] @ asc ''a  b [x] /m/'' @ [0x0A]
     @ asc ''# note'' @ [0x0A] @ asc ''c d e [y z] /n/o/'' @ [0x0A]"

definition roundtrip_dict :: Dict where
  "roundtrip_dict =
     \<lparr>d_e = [\<lparr>Traditional = asc ''a'', Simplified = asc ''b'', Pinyin = asc ''x'',
                Meanings = [asc ''m'']\<rparr>,
             \<lparr>Traditional = asc ''c'', Simplified = asc ''d'', Pinyin = asc ''y z'',
                Meanings = [asc ''n'', asc ''o'']\<rparr>],
      d_md = zero_Metadata\<lparr>Entries := 2\<rparr>,
      d_ready = True,
      d_header = [asc ''#! entries=2'', asc ''# note''],
      d_err = None\<rparr>"

section \<open>Properties of the format codec\<close>

lemma asc_keys_distinct [simp]:
  "asc ''version'' \<noteq> asc ''entries''" "asc ''subversion'' \<noteq> asc ''entries''"
  "asc ''format'' \<noteq> asc ''entries''" "asc ''charset'' \<noteq> asc ''entries''"
  "asc ''publisher'' \<noteq> asc ''entries''" "asc ''license'' \<noteq> asc ''entries''"
  "asc ''date'' \<noteq> asc ''entries''"
  by (simp_all add: asc_def)

lemma HasPrefix_bang_hash: "HasPrefix l (asc ''#!'') \<Longrightarrow> HasPrefix l (asc ''#'')"
  by (cases l) (auto simp: HasPrefix_def asc_def)

lemma parse_line_Entries:
  "parse_line tp l d = Ok d' \<Longrightarrow>
   Entries (d_md d') = (case entries_decl l of Some n \<Rightarrow> n | None \<Rightarrow> Entries (d_md d))"
  unfolding parse_line_def entries_decl_def
  by (auto simp: Let_def HasPrefix_bang_hash set_metadata_def
      split: if_splits sliced.splits outcome.splits option.splits)

lemma parse_line_count:
  "parse_line tp l d = Ok d' \<Longrightarrow>
   length (d_e d') = length (d_e d) + (if is_comment l then 0 else 1)"
  unfolding parse_line_def is_comment_def
  by (auto simp: Let_def split: if_splits sliced.splits outcome.splits)

lemma parse_lines_Cons_Ok:
  assumes "parse_lines tp (l # ls) d = Ok d'"
  obtains d1 where "parse_line tp l d = Ok d1" and "parse_lines tp ls d1 = Ok d'"
  using assms by (auto split: outcome.splits)

lemma parse_lines_count:
  "parse_lines tp ls d = Ok d' \<Longrightarrow>
   length (d_e d') = length (d_e d) + length (filter (\<lambda>l. \<not> is_comment l) ls)"
proof (induction ls arbitrary: d)
  case Nil
  then show ?case by simp
next
  case (Cons l ls)
  from Cons.prems obtain d1
    where 1: "parse_line tp l d = Ok d1" and 2: "parse_lines tp ls d1 = Ok d'"
    by (rule parse_lines_Cons_Ok)
  show ?case using Cons.IH[OF 2] parse_line_count[OF 1] by simp
qed

lemma parse_lines_Entries:
  "parse_lines tp ls d = Ok d' \<Longrightarrow> Entries (d_md d') = declared_entries (Entries (d_md d)) ls"
proof (induction ls arbitrary: d)
  case Nil
  then show ?case by simp
next
  case (Cons l ls)
  from Cons.prems obtain d1
    where 1: "parse_line tp l d = Ok d1" and 2: "parse_lines tp ls d1 = Ok d'"
    by (rule parse_lines_Cons_Ok)
  show ?case using Cons.IH[OF 2] parse_line_Entries[OF 1] by simp
qed

lemma parse_line_ready: "parse_line tp l d = Ok d' \<Longrightarrow> d_ready d' = d_ready d"
  unfolding parse_line_def
  by (auto simp: Let_def split: if_splits sliced.splits outcome.splits)

lemma parse_lines_ready: "parse_lines tp ls d = Ok d' \<Longrightarrow> d_ready d' = d_ready d"
proof (induction ls arbitrary: d)
  case Nil
  then show ?case by simp
next
  case (Cons l ls)
  from Cons.prems obtain d1
    where 1: "parse_line tp l d = Ok d1" and 2: "parse_lines tp ls d1 = Ok d'"
    by (rule parse_lines_Cons_Ok)
  show ?case using Cons.IH[OF 2] parse_line_ready[OF 1] by simp
qed

text \<open>
  C7. When no line of the text fails, Parse returns a dictionary exactly when the
  number of entry lines equals the number the header declares under \<^verbatim>\<open>entries\<close> (the last
  such declaration; zero when there is none). The dictionary is then the one the lines
  built, marked ready; otherwise the result is the entry-count error carrying the two
  numbers, and no dictionary.
\<close>

theorem Parse_entry_count:
  assumes "parse_lines tp (ScanLines text) newDict = Ok d"
  shows "((\<exists>dict. Parse tp text = Ok dict) \<longleftrightarrow>
            int (length (entry_lines text)) = declared_entries 0 (ScanLines text))
       \<and> (if int (length (entry_lines text)) = declared_entries 0 (ScanLines text)
          then Parse tp text = Ok (d\<lparr>d_ready := True\<rparr>)
          else Parse tp text = Err (EntriesMismatch (int (length (entry_lines text)))
                                     (declared_entries 0 (ScanLines text))))"
proof -
  have n: "length (d_e d) = length (entry_lines text)"
    using parse_lines_count[OF assms] by (simp add: newDict_def entry_lines_def)
  have m: "Entries (d_md d) = declared_entries 0 (ScanLines text)"
    using parse_lines_Entries[OF assms] by (simp add: newDict_def zero_Metadata_def)
  have r: "\<not> d_ready d"
    using parse_lines_ready[OF assms] by (simp add: newDict_def)
  show ?thesis
    using n m r assms by (simp add: Parse_def setReady_def isReady_def)
qed

lemmas codec_eval = Parse_def ScanLines_def parse_line_def HasPrefix_def metadata_key_def
  metadata_value_def slice_bytes_def blen_def utf8_len_def set_metadata_def Atoi_def isDecimal_def
  LineEnding_def dropCR_def Unmarshal_def Split_def asc_def Sscanf_words_def scan_word_def
  scan_space_def isSpace_def newDict_def zero_Metadata_def setReady_def isReady_def
  entry_lines_def is_comment_def entries_decl_def Let_def

theorem Parse_entry_count_witness:
  "parse_lines (\<lambda>v. None) (ScanLines (sample_text 2)) newDict = Ok (sample_lines 2)
   \<and> Parse (\<lambda>v. None) (sample_text 2) = Ok ((sample_lines 2)\<lparr>d_ready := True\<rparr>)
   \<and> parse_lines (\<lambda>v. None) (ScanLines (sample_text 1)) newDict = Ok (sample_lines 1)
   \<and> Parse (\<lambda>v. None) (sample_text 1) = Err (EntriesMismatch 2 1)"
proof -
  have h2: "parse_lines (\<lambda>v. None) (ScanLines (sample_text 2)) newDict = Ok (sample_lines 2)"
    by (simp add: sample_text_def sample_lines_def codec_eval)
  have h1: "parse_lines (\<lambda>v. None) (ScanLines (sample_text 1)) newDict = Ok (sample_lines 1)"
    by (simp add: sample_text_def sample_lines_def codec_eval)
  have n2: "int (length (entry_lines (sample_text 2))) = 2"
    and n1: "int (length (entry_lines (sample_text 1))) = 2"
    by (simp_all add: sample_text_def codec_eval)
  have m2: "declared_entries 0 (ScanLines (sample_text 2)) = 2"
    and m1: "declared_entries 0 (ScanLines (sample_text 1)) = 1"
    by (simp_all add: sample_text_def codec_eval)
  show ?thesis
    using Parse_entry_count[OF h2] Parse_entry_count[OF h1] h1 h2
    by (simp add: n1 n2 m1 m2)
qed

text \<open>
  C10. Parse does not return for every text: a slice with bounds out of range is a
  run-time panic of the calling goroutine, not an error value. A header line that starts
  with \<^verbatim>\<open>#!\<close> and has no \<^verbatim>\<open>=\<close> makes \<^verbatim>\<open>line[3:i]\<close> the slice \<^verbatim>\<open>line[3:-1]\<close>; an entry line
  with its brackets and two words but no \<^verbatim>\<open>/\<close> makes \<^verbatim>\<open>fields[1:len(fields)-1]\<close> the slice
  \<^verbatim>\<open>fields[1:0]\<close>.
\<close>

theorem Parse_panics:
  "Parse tp (asc ''#! entries'') = Panic SliceBoundsOutOfRange
   \<and> Parse tp (asc ''a b [x]'') = Panic SliceBoundsOutOfRange"
  by (simp add: codec_eval)

lemma Sscanf_words_two: "Sscanf_words chars = (n, trad, sim, None) \<Longrightarrow> n = 2"
  by (auto simp: Sscanf_words_def split: sum.splits prod.splits)

text \<open>
  C6. \<^verbatim>\<open>Sscanf\<close> returns fewer than two operands only together with an error, and that
  error is returned first: the check \<^verbatim>\<open>n != 2\<close> that follows never fires. A line with one
  word before the bracket fails with the scanner's error; a line with three words is
  accepted, its third word dropped.
\<close>

theorem Unmarshal_two_hanzi_fields_unreachable:
  "Unmarshal (asc ''a b c [x] /m/'') =
     Ok \<lparr>Traditional = asc ''a'', Simplified = asc ''b'', Pinyin = asc ''x'',
          Meanings = [asc ''m'']\<rparr>
   \<and> Unmarshal (asc ''a [x] /m/'') = Err (WithStack (ScanError UnexpectedEOF))
   \<and> (\<forall>s. Unmarshal s \<noteq> Err errTwoHanziFields)"
proof -
  have 1: "Unmarshal (asc ''a b c [x] /m/'') =
     Ok \<lparr>Traditional = asc ''a'', Simplified = asc ''b'', Pinyin = asc ''x'',
          Meanings = [asc ''m'']\<rparr>"
    by (simp add: codec_eval)
  have 2: "Unmarshal (asc ''a [x] /m/'') = Err (WithStack (ScanError UnexpectedEOF))"
    by (simp add: codec_eval)
  have ne: "errPinyinFormat \<noteq> errTwoHanziFields"
    by (simp add: errPinyinFormat_def errTwoHanziFields_def asc_def)
  have 3: "Unmarshal s \<noteq> Err errTwoHanziFields" for s
    using ne
    by (auto simp: Unmarshal_def Let_def errTwoHanziFields_def
        split: option.splits prod.splits if_splits dest: Sscanf_words_two)
  from 1 2 3 show ?thesis by blast
qed

section \<open>Saving and parsing again\<close>

lemma Save_header_Join:
  "n = i + length ls \<Longrightarrow> Save_header n i ls = Join ls LineEnding"
proof (induction ls arbitrary: i)
  case Nil
  then show ?case by simp
next
  case (Cons l ls)
  then show ?case by (cases ls) auto
qed

lemma Save_entries_concat:
  "Save_entries es = concat (map (\<lambda>e. LineEnding @ Marshal e) es)"
  by (induction es) auto

lemma Join_single_concat:
  "x @ concat (map (\<lambda>m. sep @ m) ms) = Join (x # ms) sep"
proof (induction ms arbitrary: x)
  case Nil
  then show ?case by simp
next
  case (Cons a ms)
  show ?case by (simp add: Cons.IH[of a, symmetric])
qed

lemma Join_append_concat:
  "hs \<noteq> [] \<Longrightarrow> Join hs sep @ concat (map (\<lambda>m. sep @ m) ms) = Join (hs @ ms) sep"
proof (induction hs sep rule: Join.induct)
  case (1 sep)
  then show ?case by simp
next
  case (2 x sep)
  then show ?case using Join_single_concat[of x sep ms] by simp
next
  case (3 x y ys sep)
  then show ?case by simp
qed

lemma Save_Join:
  "d_header d \<noteq> [] \<Longrightarrow> Save d = Join (d_header d @ map Marshal (d_e d)) LineEnding"
  by (simp add: Save_def Save_header_Join Save_entries_concat
      Join_append_concat[symmetric] map_map comp_def)

lemma dropCR_snoc: "dropCR (l @ [0x0D]) = l"
  by (simp add: dropCR_def)

lemma ScanLines_from_line:
  "0x0A \<notin> set l \<Longrightarrow>
   ScanLines_from cur (l @ LineEnding @ rest) = (cur @ l) # ScanLines_from [] rest"
proof (induction l arbitrary: cur)
  case Nil
  then show ?case using dropCR_snoc[of cur] by (simp add: LineEnding_def)
next
  case (Cons a l)
  then show ?case by simp
qed

lemma ScanLines_from_last:
  "0x0A \<notin> set l \<Longrightarrow>
   ScanLines_from cur l = (if cur @ l = [] then [] else [dropCR (cur @ l)])"
  by (induction l arbitrary: cur) auto

lemma ScanLines_Join:
  assumes "ls \<noteq> []" "\<forall>l \<in> set ls. 0x0A \<notin> set l" "last ls \<noteq> []" "last (last ls) \<noteq> 0x0D"
  shows "ScanLines (Join ls LineEnding) = ls"
  unfolding ScanLines_def using assms
proof (induction ls LineEnding rule: Join.induct)
  case 1
  then show ?case by simp
next
  case (2 x)
  then show ?case by (simp add: ScanLines_from_last dropCR_def)
next
  case (3 x y ys)
  then show ?case using ScanLines_from_line[of x "[]" "Join (y # ys) LineEnding"] by simp
qed

lemma dropCR_subset: "set (dropCR l) \<subseteq> set l"
  by (auto simp: dropCR_def dest: in_set_butlastD)

lemma ScanLines_from_no_LF:
  "l \<in> set (ScanLines_from cur t) \<Longrightarrow> 0x0A \<notin> set cur \<Longrightarrow> 0x0A \<notin> set l"
proof (induction t arbitrary: cur)
  case Nil
  then show ?case using dropCR_subset[of cur] by (auto split: if_splits)
next
  case (Cons a t)
  show ?case
  proof (cases "a = 0x0A")
    case True
    with Cons.prems have "l = dropCR cur \<or> l \<in> set (ScanLines_from [] t)" by simp
    then show ?thesis
    proof
      assume "l = dropCR cur"
      then show ?thesis using dropCR_subset[of cur] Cons.prems(2) by auto
    next
      assume "l \<in> set (ScanLines_from [] t)"
      then show ?thesis using Cons.IH[of "[]"] by simp
    qed
  next
    case False
    with Cons.prems have "l \<in> set (ScanLines_from (cur @ [a]) t)" by simp
    then show ?thesis using Cons.IH[of "cur @ [a]"] False Cons.prems(2) by simp
  qed
qed

lemma ScanLines_no_LF: "l \<in> set (ScanLines t) \<Longrightarrow> 0x0A \<notin> set l"
  using ScanLines_from_no_LF[of l "[]" t] by (simp add: ScanLines_def)

lemma Split_from_no_sep:
  "f \<in> set (Split_from sep cur s) \<Longrightarrow> sep \<notin> set cur \<Longrightarrow> sep \<notin> set f"
proof (induction s arbitrary: cur)
  case Nil
  then show ?case by simp
next
  case (Cons a s)
  show ?case
  proof (cases "a = sep")
    case True
    with Cons.prems have "f = cur \<or> f \<in> set (Split_from sep [] s)" by simp
    then show ?thesis using Cons.IH[of "[]"] Cons.prems(2) by auto
  next
    case False
    with Cons.prems have "f \<in> set (Split_from sep (cur @ [a]) s)" by simp
    then show ?thesis using Cons.IH[of "cur @ [a]"] False Cons.prems(2) by simp
  qed
qed

lemma Split_from_length: "length (Split_from sep cur s) = Suc (count_list s sep)"
  by (induction s arbitrary: cur) auto

lemma Split_from_hd: "hd (Split_from sep cur s) = cur @ takeWhile (\<lambda>r. r \<noteq> sep) s"
  by (induction s arbitrary: cur) auto

lemma Split_from_append:
  "sep \<notin> set x \<Longrightarrow> Split_from sep cur (x @ sep # rest) = (cur @ x) # Split_from sep [] rest"
  by (induction x arbitrary: cur) auto

lemma Split_from_Join:
  "ms \<noteq> [] \<Longrightarrow> \<forall>m \<in> set ms. sep \<notin> set m \<Longrightarrow>
   Split_from sep [] (Join ms [sep] @ [sep]) = ms @ [[]]"
proof (induction ms "[sep]" rule: Join.induct)
  case 1
  then show ?case by simp
next
  case (2 x)
  then show ?case using Split_from_append[of sep x "[]" "[]"] by simp
next
  case (3 x y ys)
  then show ?case using Split_from_append[of sep x "[]" "Join (y # ys) [sep] @ [sep]"] by simp
qed

lemma Index_first: "Index s c = Some i \<Longrightarrow> c \<notin> set (take i s)"
  by (induction s arbitrary: i) (auto split: if_splits)

lemma Index_append: "c \<notin> set xs \<Longrightarrow> Index (xs @ c # ys) c = Some (length xs)"
  by (induction xs) auto

lemma SkipSpace_Inr:
  "SkipSpace inp = Inr rest \<Longrightarrow>
   set rest \<subseteq> set inp \<and> (rest \<noteq> [] \<longrightarrow> \<not> isSpace (hd rest))
   \<and> (inp \<noteq> [] \<and> \<not> isSpace (hd inp) \<longrightarrow> rest = inp)"
  by (induction inp) (auto split: if_splits)

lemma SkipSpace_word: "w \<noteq> [] \<Longrightarrow> \<not> isSpace (hd w) \<Longrightarrow> SkipSpace (w @ r) = Inr (w @ r)"
  by (cases w) (auto simp: isSpace_def)

lemma scan_word_Inr:
  assumes "scan_word inp = Inr (w, r)"
  shows "w \<noteq> [] \<and> (\<forall>c \<in> set w. \<not> isSpace c) \<and> set w \<subseteq> set inp \<and> set r \<subseteq> set inp
         \<and> (inp \<noteq> [] \<and> \<not> isSpace (hd inp) \<longrightarrow> hd w = hd inp) \<and> inp \<noteq> []"
proof -
  from assms obtain rest where sk: "SkipSpace inp = Inr rest" and ne: "rest \<noteq> []"
    and w: "w = takeWhile (\<lambda>r. \<not> isSpace r) rest" and r: "r = dropWhile (\<lambda>r. \<not> isSpace r) rest"
    by (auto simp: scan_word_def split: sum.splits if_splits)
  note S = SkipSpace_Inr[OF sk]
  from S ne have h: "\<not> isSpace (hd rest)" by simp
  with ne have wne: "w \<noteq> []" unfolding w by (cases rest) auto
  have w1: "\<forall>c \<in> set w. \<not> isSpace c" unfolding w by (auto dest: set_takeWhileD)
  have w2: "set w \<subseteq> set inp" unfolding w using S by (auto dest: set_takeWhileD)
  have r2: "set r \<subseteq> set inp" unfolding r using S by (auto dest: set_dropWhileD)
  have hw: "hd w = hd rest" unfolding w using ne h by (cases rest) auto
  have ine: "inp \<noteq> []" using sk ne by (cases inp) auto
  show ?thesis using wne w1 w2 r2 hw S ine by auto
qed

lemma scan_space_Inr: "scan_space inp = Inr r \<Longrightarrow> set r \<subseteq> set inp"
  by (cases inp) (auto simp: scan_space_def split: if_splits dest: set_dropWhileD)

lemma Sscanf_words_Ok:
  assumes "Sscanf_words chars = (n, T, S, None)"
  shows "T \<noteq> [] \<and> S \<noteq> [] \<and> (\<forall>c \<in> set T. \<not> isSpace c) \<and> (\<forall>c \<in> set S. \<not> isSpace c)
         \<and> set T \<subseteq> set chars \<and> set S \<subseteq> set chars
         \<and> (\<not> isSpace (hd chars) \<longrightarrow> hd T = hd chars) \<and> chars \<noteq> []"
proof -
  from assms obtain r1 r2 r3 where a: "scan_word chars = Inr (T, r1)"
    and b: "scan_space r1 = Inr r2" and c: "scan_word r2 = Inr (S, r3)"
    by (auto simp: Sscanf_words_def split: sum.splits prod.splits)
  note A = scan_word_Inr[OF a]
  note B = scan_space_Inr[OF b]
  note C = scan_word_Inr[OF c]
  have "set S \<subseteq> set chars" using A B C by blast
  then show ?thesis using A C by auto
qed

lemma takeWhile_word:
  "\<forall>c \<in> set w. \<not> isSpace c \<Longrightarrow>
   takeWhile (\<lambda>r. \<not> isSpace r) (w @ 0x20 # r) = w
   \<and> dropWhile (\<lambda>r. \<not> isSpace r) (w @ 0x20 # r) = 0x20 # r"
  by (induction w) (auto simp: isSpace_def)

lemma scan_word_word:
  assumes "w \<noteq> []" "\<forall>c \<in> set w. \<not> isSpace c"
  shows "scan_word (w @ 0x20 # r) = Inr (w, 0x20 # r)"
proof -
  have "\<not> isSpace (hd w)" using assms by (cases w) auto
  then have "SkipSpace (w @ 0x20 # r) = Inr (w @ 0x20 # r)"
    using SkipSpace_word[of w "0x20 # r"] assms(1) by simp
  then show ?thesis using takeWhile_word[OF assms(2), of r] assms(1)
    by (simp add: scan_word_def)
qed

lemma Sscanf_words_Marshal:
  assumes "T \<noteq> []" "S \<noteq> []" "\<forall>c \<in> set T. \<not> isSpace c" "\<forall>c \<in> set S. \<not> isSpace c"
  shows "Sscanf_words (T @ 0x20 # S @ [0x20]) = (2, T, S, None)"
proof -
  have a: "scan_word (T @ 0x20 # S @ [0x20]) = Inr (T, 0x20 # S @ [0x20])"
    using scan_word_word[OF assms(1,3)] by simp
  have "\<not> isSpace (hd S)" using assms(2,4) by (cases S) auto
  then have "dropWhile (\<lambda>c. isSpace c \<and> c \<noteq> 0x0A) (S @ [0x20]) = S @ [0x20]"
    using assms(2) by (cases S) auto
  then have b: "scan_space (0x20 # S @ [0x20]) = Inr (S @ [0x20])"
    by (simp add: scan_space_def isSpace_def)
  have c: "scan_word (S @ [0x20]) = Inr (S, [0x20])"
    using scan_word_word[OF assms(2,4), of "[]"] by simp
  have d: "scan_space [0x20] = Inr []"
    by (simp add: scan_space_def isSpace_def)
  show ?thesis by (simp add: Sscanf_words_def a b c d)
qed

lemma Marshal_bytes:
  "Marshal e = Traditional e @ 0x20 # Simplified e @ 0x20 # 0x5B # Pinyin e
     @ 0x5D # 0x20 # 0x2F # Join (Meanings e) [0x2F] @ [0x2F]"
  by (simp add: Marshal_def asc_def)

lemma Unmarshal_Marshal:
  assumes T: "Traditional e \<noteq> []" "\<forall>c \<in> set (Traditional e). \<not> isSpace c"
    and S: "Simplified e \<noteq> []" "\<forall>c \<in> set (Simplified e). \<not> isSpace c"
    and lb: "0x5B \<notin> set (Traditional e)" "0x5B \<notin> set (Simplified e)"
    and rb: "0x5D \<notin> set (Traditional e)" "0x5D \<notin> set (Simplified e)" "0x5D \<notin> set (Pinyin e)"
    and sl: "0x2F \<notin> set (Traditional e)" "0x2F \<notin> set (Simplified e)" "0x2F \<notin> set (Pinyin e)"
    and M: "Meanings e \<noteq> []" "\<forall>m \<in> set (Meanings e). 0x2F \<notin> set m"
  shows "Unmarshal (Marshal e) = Ok e"
proof -
  define chars where "chars = Traditional e @ 0x20 # Simplified e @ [0x20]"
  define f0 where "f0 = chars @ 0x5B # Pinyin e @ [0x5D, 0x20]"
  have m: "Marshal e = f0 @ 0x2F # (Join (Meanings e) [0x2F] @ [0x2F])"
    by (simp add: Marshal_bytes f0_def chars_def)
  have "0x2F \<notin> set f0" using sl by (simp add: f0_def chars_def)
  then have fields: "Split (Marshal e) 0x2F = f0 # Meanings e @ [[]]"
    unfolding Split_def m
    using Split_from_append[of "0x2F" f0 "[]" "Join (Meanings e) [0x2F] @ [0x2F]"]
      Split_from_Join[OF M] by simp
  have "0x5B \<notin> set chars" using lb by (simp add: chars_def)
  then have off: "Index f0 0x5B = Some (length chars)"
    unfolding f0_def by (rule Index_append)
  have f0': "f0 = (chars @ 0x5B # Pinyin e) @ 0x5D # [0x20]" by (simp add: f0_def)
  have "0x5D \<notin> set (chars @ 0x5B # Pinyin e)" using rb by (simp add: chars_def)
  then have endi: "Index f0 0x5D = Some (length (chars @ 0x5B # Pinyin e))"
    unfolding f0' by (rule Index_append)
  have tk: "take (length chars) f0 = chars" by (simp add: f0_def)
  have py: "take (length (chars @ 0x5B # Pinyin e) - (length chars + 1))
              (drop (length chars + 1) f0) = Pinyin e"
    by (simp add: f0_def)
  have sc: "Sscanf_words chars = (2, Traditional e, Simplified e, None)"
    unfolding chars_def using Sscanf_words_Marshal[OF T(1) S(1) T(2) S(2)] .
  have le: "\<not> length chars + 1 > length (chars @ 0x5B # Pinyin e)" by simp
  show ?thesis
    unfolding Unmarshal_def fields Let_def list.sel off endi
    by (simp only: le tk py sc option.case prod.case if_False) simp
qed

lemma Split_from_subset:
  "f \<in> set (Split_from sep cur s) \<Longrightarrow> set f \<subseteq> set cur \<union> set s"
proof (induction s arbitrary: cur)
  case Nil
  then show ?case by simp
next
  case (Cons a s)
  show ?case
  proof (cases "a = sep")
    case True
    with Cons.prems have "f = cur \<or> f \<in> set (Split_from sep [] s)" by simp
    then show ?thesis using Cons.IH[of "[]"] by auto
  next
    case False
    with Cons.prems have "f \<in> set (Split_from sep (cur @ [a]) s)" by simp
    then show ?thesis using Cons.IH[of "cur @ [a]"] by auto
  qed
qed

lemma Join_not_mem:
  "c \<notin> set sep \<Longrightarrow> \<forall>m \<in> set ms. c \<notin> set m \<Longrightarrow> c \<notin> set (Join ms sep)"
  by (induction ms sep rule: Join.induct) auto

lemma Unmarshal_Ok:
  assumes "Unmarshal l = Ok e"
  obtains off endi n where
    "Index (hd (Split l 0x2F)) 0x5B = Some off"
    "Index (hd (Split l 0x2F)) 0x5D = Some endi"
    "off + 1 \<le> endi"
    "Sscanf_words (take off (hd (Split l 0x2F))) = (n, Traditional e, Simplified e, None)"
    "Pinyin e = take (endi - (off + 1)) (drop (off + 1) (hd (Split l 0x2F)))"
    "Meanings e = take (length (Split l 0x2F) - 1 - 1) (drop 1 (Split l 0x2F))"
  using assms unfolding Unmarshal_def Let_def
  by (auto split: option.splits prod.splits if_splits)

lemma Unmarshal_fields:
  assumes U: "Unmarshal l = Ok e"
  shows "Traditional e \<noteq> []" "Simplified e \<noteq> []"
    "\<forall>c \<in> set (Traditional e). \<not> isSpace c" "\<forall>c \<in> set (Simplified e). \<not> isSpace c"
    "0x5B \<notin> set (Traditional e)" "0x5B \<notin> set (Simplified e)"
    "0x5D \<notin> set (Traditional e)" "0x5D \<notin> set (Simplified e)" "0x5D \<notin> set (Pinyin e)"
    "0x2F \<notin> set (Traditional e)" "0x2F \<notin> set (Simplified e)" "0x2F \<notin> set (Pinyin e)"
    "\<forall>m \<in> set (Meanings e). 0x2F \<notin> set m"
    "set (Traditional e) \<subseteq> set l" "set (Simplified e) \<subseteq> set l" "set (Pinyin e) \<subseteq> set l"
    "\<forall>m \<in> set (Meanings e). set m \<subseteq> set l"
    "l \<noteq> []" "\<not> isSpace (hd l) \<Longrightarrow> hd (Traditional e) = hd l"
proof -
  define fields where "fields = Split l 0x2F"
  define f0 where "f0 = hd fields"
  from Unmarshal_Ok[OF U] obtain off endi n where
    off: "Index f0 0x5B = Some off" and endi: "Index f0 0x5D = Some endi"
    and le: "off + 1 \<le> endi"
    and sc: "Sscanf_words (take off f0) = (n, Traditional e, Simplified e, None)"
    and py: "Pinyin e = take (endi - (off + 1)) (drop (off + 1) f0)"
    and me: "Meanings e = take (length fields - 1 - 1) (drop 1 fields)"
    unfolding f0_def fields_def by blast
  note W = Sscanf_words_Ok[OF sc]
  have f0: "f0 = takeWhile (\<lambda>r. r \<noteq> 0x2F) l"
    unfolding f0_def fields_def Split_def by (simp add: Split_from_hd)
  have f0_l: "set f0 \<subseteq> set l" unfolding f0 by (auto dest: set_takeWhileD)
  have f0_sl: "0x2F \<notin> set f0" unfolding f0 by (auto dest: set_takeWhileD)
  have ch_f0: "set (take off f0) \<subseteq> set f0" by (rule set_take_subset)
  have ch_lb: "0x5B \<notin> set (take off f0)" using Index_first[OF off] .
  have "take off f0 = take off (take endi f0)" using le by (simp add: min_def)
  then have "set (take off f0) \<subseteq> set (take endi f0)" by (metis set_take_subset)
  then have ch_rb: "0x5D \<notin> set (take off f0)" using Index_first[OF endi] by blast
  have "Pinyin e = drop (off + 1) (take endi f0)"
    unfolding py using le by (simp add: drop_take)
  then have py_sub: "set (Pinyin e) \<subseteq> set (take endi f0)" by (simp add: set_drop_subset)
  have py_f0: "set (Pinyin e) \<subseteq> set f0" using py_sub set_take_subset[of endi f0] by blast
  have me_sub: "set (Meanings e) \<subseteq> set fields"
    unfolding me by (meson set_take_subset set_drop_subset subset_trans)
  show "Traditional e \<noteq> []" "Simplified e \<noteq> []"
    "\<forall>c \<in> set (Traditional e). \<not> isSpace c" "\<forall>c \<in> set (Simplified e). \<not> isSpace c"
    using W by blast+
  show "0x5B \<notin> set (Traditional e)" "0x5B \<notin> set (Simplified e)" using W ch_lb by blast+
  show "0x5D \<notin> set (Traditional e)" "0x5D \<notin> set (Simplified e)" using W ch_rb by blast+
  show "0x5D \<notin> set (Pinyin e)" using py_sub Index_first[OF endi] by blast
  show "0x2F \<notin> set (Traditional e)" "0x2F \<notin> set (Simplified e)"
    using W ch_f0 f0_sl by blast+
  show "0x2F \<notin> set (Pinyin e)" using py_f0 f0_sl by blast
  show "\<forall>m \<in> set (Meanings e). 0x2F \<notin> set m"
    using me_sub Split_from_no_sep[of _ "0x2F" "[]" l] unfolding fields_def Split_def by auto
  show "set (Traditional e) \<subseteq> set l" "set (Simplified e) \<subseteq> set l"
    using W ch_f0 f0_l by blast+
  show "set (Pinyin e) \<subseteq> set l" using py_f0 f0_l by blast
  show "\<forall>m \<in> set (Meanings e). set m \<subseteq> set l"
    using me_sub Split_from_subset[of _ "0x2F" "[]" l] unfolding fields_def Split_def by auto
  have chne: "take off f0 \<noteq> []" using W by blast
  then have f0ne: "f0 \<noteq> []" by auto
  then show lne: "l \<noteq> []" unfolding f0 by auto
  have "hd (take off f0) = hd f0" using chne by (cases f0; cases off) auto
  moreover have "hd f0 = hd l" using f0ne unfolding f0 by (cases l) (auto split: if_splits)
  ultimately show "hd (Traditional e) = hd l" if "\<not> isSpace (hd l)" using W that by simp
qed

lemma Unmarshal_Meanings:
  assumes "Unmarshal l = Ok e" "2 \<le> count_list l 0x2F"
  shows "Meanings e \<noteq> []"
proof -
  from Unmarshal_Ok[OF assms(1)] have
    me: "Meanings e = take (length (Split l 0x2F) - 1 - 1) (drop 1 (Split l 0x2F))" by blast
  have "3 \<le> length (Split l 0x2F)" using assms(2) by (simp add: Split_def Split_from_length)
  then show ?thesis unfolding me by (cases "Split l 0x2F") auto
qed

lemma Unmarshal_round_trip:
  assumes U: "Unmarshal l = Ok e" and c: "2 \<le> count_list l 0x2F"
  shows "Unmarshal (Marshal e) = Ok e"
  using Unmarshal_Marshal[of e] Unmarshal_fields(1-13)[OF U] Unmarshal_Meanings[OF U c]
  by blast

lemma is_comment_hd: "is_comment l \<longleftrightarrow> l \<noteq> [] \<and> hd l = 0x23"
  by (cases l) (auto simp: is_comment_def HasPrefix_def asc_def)

lemma Marshal_line:
  assumes U: "Unmarshal l = Ok e" and sp: "\<not> isSpace (hd l)" and nc: "\<not> is_comment l"
    and lf: "0x0A \<notin> set l"
  shows "\<not> is_comment (Marshal e)" "0x0A \<notin> set (Marshal e)"
    "Marshal e \<noteq> []" "last (Marshal e) \<noteq> 0x0D"
proof -
  note F = Unmarshal_fields[OF U]
  have "hd (Marshal e) = hd (Traditional e)" using F(1) by (simp add: Marshal_bytes)
  also have "\<dots> = hd l" using F(19) sp by simp
  finally show "\<not> is_comment (Marshal e)" using nc F(18) by (simp add: is_comment_hd)
  have "\<forall>m \<in> set (Meanings e). 0x0A \<notin> set m" using F(17) lf by blast
  then have "0x0A \<notin> set (Join (Meanings e) [0x2F])"
    using Join_not_mem[of "0x0A" "[0x2F]" "Meanings e"] by simp
  then show "0x0A \<notin> set (Marshal e)" using F(14-16) lf by (auto simp: Marshal_bytes)
  show "Marshal e \<noteq> []" by (simp add: Marshal_bytes)
  show "last (Marshal e) \<noteq> 0x0D" by (simp add: Marshal_bytes)
qed

lemma parse_line_comment:
  assumes "is_comment l" "parse_line tp l d = Ok d'"
  shows "d_e d' = d_e d" "d_header d' = d_header d @ [l]"
    "parse_line tp l (d\<lparr>d_e := X\<rparr>) = Ok (d'\<lparr>d_e := X\<rparr>)"
  using assms unfolding parse_line_def is_comment_def
  by (auto simp: Let_def split: if_splits sliced.splits outcome.splits)

lemma parse_line_entry:
  assumes "\<not> is_comment l" "parse_line tp l d = Ok d'"
  obtains e where "Unmarshal l = Ok e" "d' = d\<lparr>d_e := d_e d @ [e]\<rparr>"
  using assms unfolding parse_line_def is_comment_def
  by (auto split: outcome.splits)

lemma parse_line_Unmarshal:
  "\<not> is_comment l \<Longrightarrow> Unmarshal l = Ok e \<Longrightarrow> parse_line tp l d = Ok (d\<lparr>d_e := d_e d @ [e]\<rparr>)"
  unfolding parse_line_def is_comment_def by simp

lemma parse_lines_comments:
  "list_all is_comment hs \<Longrightarrow> parse_lines tp hs d = Ok d' \<Longrightarrow>
   parse_lines tp hs (d\<lparr>d_e := X\<rparr>) = Ok (d'\<lparr>d_e := X\<rparr>)"
proof (induction hs arbitrary: d)
  case Nil
  then show ?case by simp
next
  case (Cons l hs)
  from Cons.prems(2) obtain d1
    where 1: "parse_line tp l d = Ok d1" and 2: "parse_lines tp hs d1 = Ok d'"
    by (rule parse_lines_Cons_Ok)
  from Cons.prems(1) have c: "is_comment l" and cs: "list_all is_comment hs" by simp_all
  show ?case using parse_line_comment(3)[OF c 1, of X] Cons.IH[OF cs 2] by simp
qed

lemma parse_lines_append:
  "parse_lines tp a d = Ok d1 \<Longrightarrow> parse_lines tp (a @ b) d = parse_lines tp b d1"
  by (induction a arbitrary: d) (auto split: outcome.splits)

lemma parse_lines_split:
  assumes "parse_lines tp ls d = Ok d'"
  shows "parse_lines tp (filter is_comment ls) d = Ok (d'\<lparr>d_e := d_e d\<rparr>)
       \<and> d_header d' = d_header d @ filter is_comment ls
       \<and> (\<exists>es. d_e d' = d_e d @ es
            \<and> list_all2 (\<lambda>l e. Unmarshal l = Ok e) (filter (\<lambda>l. \<not> is_comment l) ls) es)"
  using assms
proof (induction ls arbitrary: d)
  case Nil
  then show ?case by simp
next
  case (Cons l ls)
  from Cons.prems obtain d1
    where 1: "parse_line tp l d = Ok d1" and 2: "parse_lines tp ls d1 = Ok d'"
    by (rule parse_lines_Cons_Ok)
  from Cons.IH[OF 2] obtain es where
    a: "parse_lines tp (filter is_comment ls) d1 = Ok (d'\<lparr>d_e := d_e d1\<rparr>)"
    and b: "d_header d' = d_header d1 @ filter is_comment ls"
    and c: "d_e d' = d_e d1 @ es"
    and e: "list_all2 (\<lambda>l e. Unmarshal l = Ok e) (filter (\<lambda>l. \<not> is_comment l) ls) es"
    by blast
  show ?case
  proof (cases "is_comment l")
    case True
    note L = parse_line_comment[OF True 1]
    have "parse_lines tp (filter is_comment (l # ls)) d = Ok (d'\<lparr>d_e := d_e d\<rparr>)"
      using True 1 a L(1) by simp
    moreover have "d_header d' = d_header d @ filter is_comment (l # ls)"
      using True b L(2) by simp
    moreover have "d_e d' = d_e d @ es" using c L(1) by simp
    ultimately show ?thesis using e True by auto
  next
    case False
    from parse_line_entry[OF False 1] obtain en where
      u: "Unmarshal l = Ok en" and d1: "d1 = d\<lparr>d_e := d_e d @ [en]\<rparr>" by blast
    have "list_all is_comment (filter is_comment ls)" by (simp add: list_all_iff)
    from parse_lines_comments[OF this a, of "d_e d"]
    have "parse_lines tp (filter is_comment ls) (d1\<lparr>d_e := d_e d\<rparr>) = Ok (d'\<lparr>d_e := d_e d\<rparr>)"
      by simp
    moreover have "d1\<lparr>d_e := d_e d\<rparr> = d" by (simp add: d1)
    ultimately have "parse_lines tp (filter is_comment (l # ls)) d = Ok (d'\<lparr>d_e := d_e d\<rparr>)"
      using False by simp
    moreover have "d_header d' = d_header d @ filter is_comment (l # ls)"
      using False b by (simp add: d1)
    moreover have "d_e d' = d_e d @ (en # es)" using c by (simp add: d1)
    moreover have "list_all2 (\<lambda>l e. Unmarshal l = Ok e)
        (filter (\<lambda>l. \<not> is_comment l) (l # ls)) (en # es)"
      using False u e by simp
    ultimately show ?thesis by blast
  qed
qed

lemma parse_lines_entries:
  "list_all2 (\<lambda>l e. Unmarshal l = Ok e \<and> \<not> is_comment l) ms es \<Longrightarrow>
   parse_lines tp ms d = Ok (d\<lparr>d_e := d_e d @ es\<rparr>)"
proof (induction ms es arbitrary: d rule: list_all2_induct)
  case Nil
  then show ?case by simp
next
  case (Cons l ms e es)
  have "parse_line tp l d = Ok (d\<lparr>d_e := d_e d @ [e]\<rparr>)"
    using Cons.hyps(1) by (simp add: parse_line_Unmarshal)
  then show ?case using Cons.IH[of "d\<lparr>d_e := d_e d @ [e]\<rparr>"] by simp
qed

lemma Marshal_lines:
  assumes "list_all2 (\<lambda>l e. Unmarshal l = Ok e) ms es"
    and "\<forall>l \<in> set ms. \<not> is_comment l \<and> \<not> isSpace (hd l) \<and> 2 \<le> count_list l 0x2F
           \<and> 0x0A \<notin> set l"
  shows "list_all2 (\<lambda>l e. Unmarshal l = Ok e \<and> \<not> is_comment l) (map Marshal es) es
       \<and> (\<forall>e \<in> set es. 0x0A \<notin> set (Marshal e) \<and> Marshal e \<noteq> [] \<and> last (Marshal e) \<noteq> 0x0D)"
  using assms
proof (induction ms es rule: list_all2_induct)
  case Nil
  then show ?case by simp
next
  case (Cons l ms e es)
  from Cons.prems have g: "\<not> is_comment l" "\<not> isSpace (hd l)" "2 \<le> count_list l 0x2F"
    "0x0A \<notin> set l" by simp_all
  note R = Unmarshal_round_trip[OF Cons.hyps(1) g(3)]
  note M = Marshal_line[OF Cons.hyps(1) g(2) g(1) g(4)]
  show ?case using Cons.IH Cons.prems R M by simp
qed

text \<open>
  C2. For every well-formed text that Parse accepts (its declared number of entries
  then equals the number of its entry lines), parsing what Save writes for the parsed
  dictionary gives that dictionary again: the same header lines, the same metadata and
  the same entries in the same order.
\<close>

theorem Parse_Save_round_trip:
  assumes P: "Parse tp text = Ok d" and wf: "well_formed text"
  shows "Parse tp (Save d) = Ok d"
proof -
  define ls where "ls = ScanLines text"
  define hs where "hs = filter is_comment ls"
  from P obtain d0 where p0: "parse_lines tp ls newDict = Ok d0"
    and n: "int (length (d_e d0)) = Entries (d_md d0)" and d: "d = setReady d0"
    unfolding Parse_def ls_def by (auto split: outcome.splits if_splits)
  have "\<not> d_ready d0" using parse_lines_ready[OF p0] by (simp add: newDict_def)
  then have d': "d = d0\<lparr>d_ready := True\<rparr>" by (simp add: d setReady_def isReady_def)
  from parse_lines_split[OF p0] obtain es where
    a: "parse_lines tp hs newDict = Ok (d0\<lparr>d_e := []\<rparr>)"
    and h: "d_header d0 = hs" and e: "d_e d0 = es"
    and u: "list_all2 (\<lambda>l e. Unmarshal l = Ok e) (filter (\<lambda>l. \<not> is_comment l) ls) es"
    unfolding hs_def by (auto simp: newDict_def)
  have wfl: "\<forall>l \<in> set ls. wf_line l"
    using wf by (simp add: well_formed_def ls_def list_all_iff)
  have lf: "\<forall>l \<in> set ls. 0x0A \<notin> set l"
    using ScanLines_no_LF unfolding ls_def by blast
  have "\<forall>l \<in> set (filter (\<lambda>l. \<not> is_comment l) ls).
          \<not> is_comment l \<and> \<not> isSpace (hd l) \<and> 2 \<le> count_list l 0x2F \<and> 0x0A \<notin> set l"
    using wfl lf by (auto simp: wf_line_def)
  from Marshal_lines[OF u this] have
    m: "list_all2 (\<lambda>l e. Unmarshal l = Ok e \<and> \<not> is_comment l) (map Marshal es) es"
    and ml: "\<forall>e \<in> set es. 0x0A \<notin> set (Marshal e) \<and> Marshal e \<noteq> [] \<and> last (Marshal e) \<noteq> 0x0D"
    by blast+
  have re: "parse_lines tp (hs @ map Marshal es) newDict = Ok d0"
  proof -
    have "parse_lines tp (hs @ map Marshal es) newDict
            = parse_lines tp (map Marshal es) (d0\<lparr>d_e := []\<rparr>)"
      using parse_lines_append[OF a] .
    also have "\<dots> = Ok (d0\<lparr>d_e := []\<rparr>\<lparr>d_e := d_e (d0\<lparr>d_e := []\<rparr>) @ es\<rparr>)"
      using parse_lines_entries[OF m] .
    also have "\<dots> = Ok d0" using e by simp
    finally show ?thesis .
  qed
  have sc: "ScanLines (Save d) = hs @ map Marshal es"
  proof (cases "hs = []")
    case True
    with a have "d0\<lparr>d_e := []\<rparr> = newDict" by simp
    then have "d_md d0 = zero_Metadata"
      by (metis Dict.select_convs(2) Dict.surjective Dict.update_convs(1) newDict_def)
    then have "es = []" using n e by (simp add: zero_Metadata_def)
    then show ?thesis using True h e by (simp add: Save_def d' ScanLines_def)
  next
    case False
    have s: "Save d = Join (hs @ map Marshal es) LineEnding"
      using Save_Join[of d] False h e by (simp add: d')
    have 1: "hs @ map Marshal es \<noteq> []" using False by simp
    have 2: "\<forall>l \<in> set (hs @ map Marshal es). 0x0A \<notin> set l"
      using lf ml by (auto simp: hs_def)
    have 3: "last (hs @ map Marshal es) \<noteq> [] \<and> last (last (hs @ map Marshal es)) \<noteq> 0x0D"
    proof (cases "es = []")
      case True
      have "last hs \<in> set hs" using False by simp
      then have "is_comment (last hs)" "wf_line (last hs)" using wfl by (auto simp: hs_def)
      then show ?thesis using True by (auto simp: wf_line_def is_comment_hd)
    next
      case False
      then have "last (hs @ map Marshal es) = Marshal (last es)" by (simp add: last_map)
      moreover have "last es \<in> set es" using False by simp
      ultimately show ?thesis using ml by simp
    qed
    show ?thesis unfolding s using ScanLines_Join[OF 1 2] 3 by blast
  qed
  show ?thesis
    unfolding Parse_def sc re using n d by simp
qed

lemmas roundtrip_eval = roundtrip_text_def roundtrip_dict_def well_formed_def wf_line_def
  Save_def Marshal_def

theorem Parse_Save_round_trip_witness:
  "Parse (\<lambda>v. None) roundtrip_text = Ok roundtrip_dict
   \<and> well_formed roundtrip_text
   \<and> Save roundtrip_dict = asc ''#! entries=2'' @ LineEnding @ asc ''# note'' @ LineEnding
        @ asc ''a b [x] /m/'' @ LineEnding @ asc ''c d [y z] /n/o/''
   \<and> Parse (\<lambda>v. None) (Save roundtrip_dict) = Ok roundtrip_dict"
proof -
  have p: "Parse (\<lambda>v. None) roundtrip_text = Ok roundtrip_dict"
    by (simp add: roundtrip_eval codec_eval)
  have w: "well_formed roundtrip_text"
    by (simp add: roundtrip_eval codec_eval)
  have s: "Save roundtrip_dict = asc ''#! entries=2'' @ LineEnding @ asc ''# note'' @ LineEnding
        @ asc ''a b [x] /m/'' @ LineEnding @ asc ''c d [y z] /n/o/''"
    by (simp add: roundtrip_eval codec_eval)
  show ?thesis using Parse_Save_round_trip[OF p w] p w s by simp
qed

text \<open>
  The theorem needs the second slash. A line whose meanings are not closed is parsed to
  an entry with no meaning, which Save writes as \<^verbatim>\<open>//\<close>, and that is read back as one
  empty meaning.
\<close>

lemma Unmarshal_Marshal_unclosed_meanings:
  "Unmarshal (asc ''a b [x] /'') =
     Ok \<lparr>Traditional = asc ''a'', Simplified = asc ''b'', Pinyin = asc ''x'', Meanings = []\<rparr>
   \<and> Unmarshal (Marshal \<lparr>Traditional = asc ''a'', Simplified = asc ''b'', Pinyin = asc ''x'',
                           Meanings = []\<rparr>) =
     Ok \<lparr>Traditional = asc ''a'', Simplified = asc ''b'', Pinyin = asc ''x'', Meanings = [[]]\<rparr>"
  by (simp add: Marshal_def codec_eval)

section \<open>Properties of the Levenshtein distance\<close>

lemma ed_Nil2 [simp]: "ed xs [] = length xs"
  by (cases xs) auto

lemma ed_Cons_Cons_cases:
  "ed (x # xs) (y # ys) = ed xs ys + (if x = y then 0 else 1)
   \<or> ed (x # xs) (y # ys) = ed xs (y # ys) + 1
   \<or> ed (x # xs) (y # ys) = ed (x # xs) ys + 1"
  unfolding ed.simps min_def by presburger

lemma ed_sym: "ed xs ys = ed ys xs"
  by (induction xs ys rule: ed.induct) (auto simp: min.commute min.left_commute)

lemma ed_refl [simp]: "ed xs xs = 0"
  by (induction xs) auto

lemma ed_Cons_le: "ed (x # xs) ys \<le> ed xs ys + 1"
  by (cases ys) auto

lemma ed_Cons2_le: "ed xs (y # ys) \<le> ed xs ys + 1"
  by (cases xs) auto

lemma ed_le_Cons: "ed xs ys \<le> ed (x # xs) ys + 1"
proof (induction ys arbitrary: xs x)
  case Nil
  then show ?case by simp
next
  case (Cons y ys)
  have a: "ed xs (y # ys) \<le> ed xs ys + 1" by (rule ed_Cons2_le)
  have b: "ed xs ys \<le> ed (x # xs) ys + 1" by (rule Cons.IH)
  show ?case using a b by (auto simp: min_def)
qed

lemma ed_le_Cons2: "ed xs ys \<le> ed xs (y # ys) + 1"
  using ed_le_Cons[of ys xs y] by (simp add: ed_sym)

lemma ed_Cons_same: "ed (x # xs) (x # ys) = ed xs ys"
  using ed_le_Cons[of xs ys x] ed_le_Cons2[of xs ys x] by (simp add: min_def)

lemma ed_Cons_diff: "x \<noteq> y \<Longrightarrow>
  ed (x # xs) (y # ys) = 1 + min (ed xs ys) (min (ed xs (y # ys)) (ed (x # xs) ys))"
  by (simp add: min_def)

lemma ed_zero_iff: "ed xs ys = 0 \<longleftrightarrow> xs = ys"
proof (induction xs ys rule: ed.induct)
  case (1 ys)
  then show ?case by auto
next
  case (2 x xs)
  then show ?case by auto
next
  case (3 x xs y ys)
  then show ?case by (cases "x = y") (auto simp: min_def)
qed

lemma length_le_ed: "length zs \<le> length ys + ed ys zs"
proof (induction ys zs rule: ed.induct)
  case (1 ys)
  then show ?case by simp
next
  case (2 x xs)
  then show ?case by simp
next
  case (3 x xs y ys)
  then show ?case by (auto simp: min_def)
qed

lemma ed_le_sum: "ed xs zs \<le> length xs + length zs"
proof (induction xs zs rule: ed.induct)
  case (1 ys)
  then show ?case by simp
next
  case (2 x xs)
  then show ?case by simp
next
  case (3 x xs y ys)
  then show ?case by (auto simp: min_def)
qed

lemma ed_triangle: "ed xs zs \<le> ed xs ys + ed ys zs"
proof (induction "length xs + length ys + length zs" arbitrary: xs ys zs rule: less_induct)
  case less
  show ?case
  proof (cases xs)
    case Nil
    then show ?thesis using length_le_ed[of zs ys] by simp
  next
    case xs: (Cons x xs')
    show ?thesis
    proof (cases zs)
      case Nil
      then show ?thesis using length_le_ed[of xs ys] by (simp add: ed_sym)
    next
      case zs: (Cons z zs')
      show ?thesis
      proof (cases ys)
        case Nil
        then show ?thesis using ed_le_sum[of xs zs] by simp
      next
        case ys: (Cons y ys')
        have IH: "ed a c \<le> ed a b + ed b c"
          if "length a + length b + length c < length xs + length ys + length zs" for a b c :: "'a list"
          using less.hyps[OF that] .
        have i1: "ed xs' zs' \<le> ed xs' ys' + ed ys' zs'" by (rule IH) (simp add: xs ys zs)
        have i2: "ed xs' zs \<le> ed xs' ys' + ed ys' zs" by (rule IH) (simp add: xs ys zs)
        have i3: "ed xs zs' \<le> ed xs ys + ed ys zs'" by (rule IH) (simp add: xs ys zs)
        have i4: "ed xs' zs \<le> ed xs' ys + ed ys zs" by (rule IH) (simp add: xs ys zs)
        have i5: "ed xs zs' \<le> ed xs ys' + ed ys' zs'" by (rule IH) (simp add: xs ys zs)
        have i6: "ed xs zs \<le> ed xs ys' + ed ys' zs" by (rule IH) (simp add: xs ys zs)
        have u1: "ed xs zs \<le> ed xs' zs' + (if x = z then 0 else 1)"
          and u2: "ed xs zs \<le> ed xs' zs + 1"
          and u3: "ed xs zs \<le> ed xs zs' + 1"
          by (simp_all add: xs zs)
        consider (a) "ed xs ys = ed xs' ys' + (if x = y then 0 else 1)"
          | (b) "ed xs ys = ed xs' ys + 1" | (c) "ed xs ys = ed xs ys' + 1"
          using ed_Cons_Cons_cases[of x xs' y ys'] unfolding xs ys by blast
        then show ?thesis
        proof cases
          case a
          consider (a1) "ed ys zs = ed ys' zs' + (if y = z then 0 else 1)"
            | (b1) "ed ys zs = ed ys' zs + 1" | (c1) "ed ys zs = ed ys zs' + 1"
            using ed_Cons_Cons_cases[of y ys' z zs'] unfolding zs ys by blast
          then show ?thesis
          proof cases
            case a1
            then show ?thesis using a i1 u1 by (auto split: if_splits)
          next
            case b1
            then show ?thesis using a i2 u2 by (auto split: if_splits)
          next
            case c1
            then show ?thesis using a i3 u3 by (auto split: if_splits)
          qed
        next
          case b
          then show ?thesis using i4 u2 by simp
        next
          case c
          consider (a1) "ed ys zs = ed ys' zs' + (if y = z then 0 else 1)"
            | (b1) "ed ys zs = ed ys' zs + 1" | (c1) "ed ys zs = ed ys zs' + 1"
            using ed_Cons_Cons_cases[of y ys' z zs'] unfolding zs ys by blast
          then show ?thesis
          proof cases
            case a1
            then show ?thesis using c i5 u3 by (auto split: if_splits)
          next
            case b1
            then show ?thesis using c i6 by simp
          next
            case c1
            then show ?thesis using c i3 u3 by simp
          qed
        qed
      qed
    qed
  qed
qed

lemma min9:
  fixes A B C D E F G H I p q :: nat
  shows "min (min (A + p) (min (B + 1) (C + 1)) + q)
          (min (min (D + p) (min (E + 1) (F + 1)) + 1) (min (G + p) (min (H + 1) (I + 1)) + 1))
       = min (min (A + q) (min (D + 1) (G + 1)) + p)
          (min (min (B + q) (min (E + 1) (H + 1)) + 1) (min (C + q) (min (F + 1) (I + 1)) + 1))"
  by (simp only: min_add_distrib_left min_add_distrib_right min.assoc min.commute
      min.left_commute add.assoc add.commute add.left_commute)

lemma ed_single_snoc:
  "ed [a] (ys @ [b]) =
     min (length ys + (if a = b then 0 else 1)) (min (length ys + 1 + 1) (ed [a] ys + 1))"
proof (induction ys)
  case Nil
  then show ?case by simp
next
  case (Cons y ys)
  have "ed [a] ((y # ys) @ [b]) =
      min (length ys + 1 + (if a = y then 0 else 1))
        (min (length ys + 1 + 1 + 1) (ed [a] (ys @ [b]) + 1))"
    by simp
  also have "\<dots> = min (length ys + 1 + (if a = y then 0 else 1))
        (min (length ys + 1 + 1 + 1)
           (min (length ys + (if a = b then 0 else 1))
              (min (length ys + 1 + 1) (ed [a] ys + 1)) + 1))"
    by (simp only: Cons.IH)
  finally have L: "ed [a] ((y # ys) @ [b]) = min (length ys + 1 + (if a = y then 0 else 1))
        (min (length ys + 1 + 1 + 1)
           (min (length ys + (if a = b then 0 else 1))
              (min (length ys + 1 + 1) (ed [a] ys + 1)) + 1))" .
  have R: "ed [a] (y # ys) = min (length ys + (if a = y then 0 else 1))
      (min (length ys + 1 + 1) (ed [a] ys + 1))"
    by simp
  show ?case
    unfolding L R
    by (cases "a = y"; cases "a = b"; simp add: min_def)
qed

lemma ed_snoc_snoc:
  "ed (xs @ [a]) (ys @ [b]) =
     min (ed xs ys + (if a = b then 0 else 1)) (min (ed xs (ys @ [b]) + 1) (ed (xs @ [a]) ys + 1))"
proof (induction xs ys rule: ed.induct)
  case (1 ys)
  then show ?case using ed_single_snoc[of a ys b] by simp
next
  case (2 x xs)
  let ?p = "(if a = b then 0 else 1) :: nat"
  have e0: "ed (x # xs) [] = length (x # xs)" by (rule ed_Nil2)
  have e2: "ed ((x # xs) @ [a]) [] = length (x # xs) + 1"
    using ed_Nil2[of "(x # xs) @ [a]"] by simp
  have p: "(if b = a then 0 else 1 :: nat) = ?p" by auto
  have "ed ((x # xs) @ [a]) [b] = ed [b] ((x # xs) @ [a])" by (rule ed_sym)
  also have "\<dots> = min (length (x # xs) + (if b = a then 0 else 1))
      (min (length (x # xs) + 1 + 1) (ed [b] (x # xs) + 1))"
    by (rule ed_single_snoc)
  also have "ed [b] (x # xs) = ed (x # xs) [b]" by (rule ed_sym)
  also have "min (length (x # xs) + 1 + 1) (ed (x # xs) [b] + 1) =
      min (ed (x # xs) [b] + 1) (length (x # xs) + 1 + 1)"
    by (rule min.commute)
  finally show ?case by (simp only: append_Nil e0 e2 p)
next
  case (3 x xs y ys)
  let ?p = "(if a = b then 0 else 1) :: nat"
  let ?q = "(if x = y then 0 else 1) :: nat"
  have "ed ((x # xs) @ [a]) ((y # ys) @ [b]) =
      min (ed (xs @ [a]) (ys @ [b]) + ?q)
        (min (ed (xs @ [a]) ((y # ys) @ [b]) + 1) (ed ((x # xs) @ [a]) (ys @ [b]) + 1))"
    by (simp only: append_Cons ed.simps)
  also have "\<dots> =
      min (min (ed xs ys + ?p) (min (ed xs (ys @ [b]) + 1) (ed (xs @ [a]) ys + 1)) + ?q)
        (min (min (ed xs (y # ys) + ?p)
                (min (ed xs ((y # ys) @ [b]) + 1) (ed (xs @ [a]) (y # ys) + 1)) + 1)
             (min (ed (x # xs) ys + ?p)
                (min (ed (x # xs) (ys @ [b]) + 1) (ed ((x # xs) @ [a]) ys + 1)) + 1))"
    by (simp only: "3.IH")
  also have "\<dots> =
      min (min (ed xs ys + ?q) (min (ed xs (y # ys) + 1) (ed (x # xs) ys + 1)) + ?p)
        (min (min (ed xs (ys @ [b]) + ?q)
                (min (ed xs ((y # ys) @ [b]) + 1) (ed (x # xs) (ys @ [b]) + 1)) + 1)
             (min (ed (xs @ [a]) ys + ?q)
                (min (ed (xs @ [a]) (y # ys) + 1) (ed ((x # xs) @ [a]) ys + 1)) + 1))"
    by (rule min9)
  also have "\<dots> = min (ed (x # xs) (y # ys) + ?p)
      (min (ed (x # xs) ((y # ys) @ [b]) + 1) (ed ((x # xs) @ [a]) (y # ys) + 1))"
    by (simp only: append_Cons ed.simps)
  finally show ?case .
qed

lemma ed_rev: "ed (rev xs) (rev ys) = ed xs ys"
proof (induction xs ys rule: ed.induct)
  case (1 ys)
  then show ?case by simp
next
  case (2 x xs)
  then show ?case by simp
next
  case (3 x xs y ys)
  then show ?case by (simp add: ed_snoc_snoc)
qed

declare lev_inner.simps [simp del] lev_outer.simps [simp del]

lemma min3_min: "min3 x y z = min x (min y z)"
  by (simp add: min3_def min_def)

lemma ed_prefix_0: "ed_prefix s1 s2 0 j = int (min j (length s1))"
  by (simp add: ed_prefix_def)

lemma ed_prefix_j0: "ed_prefix s1 s2 i 0 = int (min i (length s2))"
  by (simp add: ed_prefix_def)

lemma ed_prefix_step:
  assumes "0 < i" "i \<le> length s2" "0 < j" "j \<le> length s1"
  shows "ed_prefix s1 s2 i j = (if s2 ! (i - 1) = s1 ! (j - 1) then ed_prefix s1 s2 (i - 1) (j - 1)
          else min3 (ed_prefix s1 s2 (i - 1) (j - 1) + 1) (ed_prefix s1 s2 i (j - 1) + 1) (ed_prefix s1 s2 (i - 1) j + 1))"
proof -
  obtain i' j' where i: "i = Suc i'" and j: "j = Suc j'"
    using assms by (cases i; cases j) auto
  have ti: "rev (take i s2) = s2 ! i' # rev (take i' s2)"
    using assms i by (simp add: take_Suc_conv_app_nth)
  have tj: "rev (take j s1) = s1 ! j' # rev (take j' s1)"
    using assms j by (simp add: take_Suc_conv_app_nth)
  show ?thesis
  proof (cases "s2 ! i' = s1 ! j'")
    case True
    have "ed (s1 ! j' # rev (take i' s2)) (s1 ! j' # rev (take j' s1)) =
        ed (rev (take i' s2)) (rev (take j' s1))"
      by (rule ed_Cons_same)
    then show ?thesis
      using True unfolding ed_prefix_def ti tj by (simp add: i j del: ed.simps)
  next
    case False
    have "ed (s2 ! i' # rev (take i' s2)) (s1 ! j' # rev (take j' s1)) =
        1 + min (ed (rev (take i' s2)) (rev (take j' s1)))
          (min (ed (rev (take i' s2)) (s1 ! j' # rev (take j' s1)))
             (ed (s2 ! i' # rev (take i' s2)) (rev (take j' s1))))"
      using False by (rule ed_Cons_diff)
    then show ?thesis
      using False unfolding ed_prefix_def min3_min
      by (simp add: i j ti[unfolded i] tj[unfolded j] min.commute min.left_commute)
  qed
qed

lemma lev_inner_correct:
  assumes "length ld = length s1 + 1" "0 < i" "i \<le> length s2" "0 < j" "j \<le> length s1 + 1"
    and "\<And>k. k < j - 1 \<Longrightarrow> ld ! k = ed_prefix s1 s2 i k"
    and "\<And>k. j - 1 \<le> k \<Longrightarrow> k \<le> length s1 \<Longrightarrow> ld ! k = ed_prefix s1 s2 (i - 1) k"
    and "prev = ed_prefix s1 s2 i (j - 1)"
    and "lev_inner s1 (s2 ! (i - 1)) j ld prev = (ld', prev')"
  shows "length ld' = length s1 + 1 \<and> (\<forall>k < length s1. ld' ! k = ed_prefix s1 s2 i k)
       \<and> prev' = ed_prefix s1 s2 i (length s1)"
  using assms
proof (induction "length s1 + 1 - j" arbitrary: j ld prev)
  case 0
  then have j: "j = length s1 + 1" by simp
  from "0.prems"(9) have "ld' = ld" "prev' = prev"
    by (simp_all add: lev_inner.simps j)
  then show ?case using "0.prems" j by simp
next
  case (Suc n)
  then have j: "j \<le> length s1" by simp
  let ?curr = "(if s2 ! (i - 1) = s1 ! (j - 1) then ld ! (j - 1)
                     else min3 (ld ! (j - 1) + 1) (prev + 1) (ld ! j + 1))"
  have a: "ld ! (j - 1) = ed_prefix s1 s2 (i - 1) (j - 1)"
    by (rule Suc.prems(7)) (use j in simp_all)
  have b: "ld ! j = ed_prefix s1 s2 (i - 1) j"
    by (rule Suc.prems(7)) (use j in simp_all)
  have curr: "?curr = ed_prefix s1 s2 i j"
    unfolding a b Suc.prems(8) ed_prefix_step[OF Suc.prems(2,3,4) j] ..
  have step: "lev_inner s1 (s2 ! (i - 1)) (j + 1) (ld[j - 1 := prev]) ?curr = (ld', prev')"
    using Suc.prems(9) j by (subst (asm) lev_inner.simps) (simp add: Let_def)
  show ?case
  proof (rule Suc.hyps(1)[OF _ _ Suc.prems(2,3) _ _ _ _ _ step])
    show "n = length s1 + 1 - (j + 1)" using Suc.hyps(2) by simp
    show "length (ld[j - 1 := prev]) = length s1 + 1" using Suc.prems(1) by simp
    show "0 < j + 1" by simp
    show "j + 1 \<le> length s1 + 1" using j by simp
    show "ld[j - 1 := prev] ! k = ed_prefix s1 s2 i k" if "k < j + 1 - 1" for k
    proof (cases "k = j - 1")
      case True
      then show ?thesis using Suc.prems(1,4,8) j by simp
    next
      case False
      then have "k < j - 1" using that by simp
      then show ?thesis using Suc.prems(6)[of k] False by simp
    qed
    show "ld[j - 1 := prev] ! k = ed_prefix s1 s2 (i - 1) k" if "j + 1 - 1 \<le> k" "k \<le> length s1" for k
      using that Suc.prems(7)[of k] Suc.prems(4) by simp
    show "?curr = ed_prefix s1 s2 i (j + 1 - 1)" using curr by simp
  qed
qed

lemma lev_outer_correct:
  assumes "length ld = length s1 + 1" "0 < i" "i \<le> length s2 + 1"
    and "\<And>k. k \<le> length s1 \<Longrightarrow> ld ! k = ed_prefix s1 s2 (i - 1) k"
  shows "lev_outer s1 s2 i ld ! length s1 = ed_prefix s1 s2 (length s2) (length s1)"
  using assms
proof (induction "length s2 + 1 - i" arbitrary: i ld)
  case 0
  then have i: "i = length s2 + 1" by simp
  show ?case using "0.prems"(4)[of "length s1"] by (simp add: lev_outer.simps i)
next
  case (Suc n)
  then have i: "i \<le> length s2" by simp
  obtain ld' prev' where in1: "lev_inner s1 (s2 ! (i - 1)) 1 ld (int i) = (ld', prev')"
    by (cases "lev_inner s1 (s2 ! (i - 1)) 1 ld (int i)")
  have inner: "length ld' = length s1 + 1 \<and> (\<forall>k < length s1. ld' ! k = ed_prefix s1 s2 i k)
       \<and> prev' = ed_prefix s1 s2 i (length s1)"
  proof (rule lev_inner_correct[OF Suc.prems(1,2) i _ _ _ _ _ in1])
    show "0 < (1::nat)" by simp
    show "1 \<le> length s1 + 1" by simp
    show "ld ! k = ed_prefix s1 s2 i k" if "k < 1 - 1" for k using that by simp
    show "ld ! k = ed_prefix s1 s2 (i - 1) k" if "1 - 1 \<le> k" "k \<le> length s1" for k
      using that Suc.prems(4) by simp
    show "int i = ed_prefix s1 s2 i (1 - 1)" using i by (simp add: ed_prefix_j0)
  qed
  have step: "lev_outer s1 s2 i ld = lev_outer s1 s2 (i + 1) (ld'[length s1 := prev'])"
    using i in1 by (subst lev_outer.simps) simp
  have "lev_outer s1 s2 (i + 1) (ld'[length s1 := prev']) ! length s1 =
      ed_prefix s1 s2 (length s2) (length s1)"
  proof (rule Suc.hyps(1))
    show "n = length s2 + 1 - (i + 1)" using Suc.hyps(2) by simp
    show "length (ld'[length s1 := prev']) = length s1 + 1" using inner by simp
    show "0 < i + 1" by simp
    show "i + 1 \<le> length s2 + 1" using i by simp
    show "ld'[length s1 := prev'] ! k = ed_prefix s1 s2 (i + 1 - 1) k" if "k \<le> length s1" for k
      using that inner by (cases "k = length s1") auto
  qed
  then show ?case by (simp only: step)
qed

lemma lev_table: "lev_outer s1 s2 1 (map int [0..<length s1 + 1]) ! length s1 = int (ed s2 s1)"
proof -
  have "lev_outer s1 s2 1 (map int [0..<length s1 + 1]) ! length s1 =
      ed_prefix s1 s2 (length s2) (length s1)"
  proof (rule lev_outer_correct)
    show "length (map int [0..<length s1 + 1]) = length s1 + 1" by simp
    show "0 < (1::nat)" by simp
    show "1 \<le> length s2 + 1" by simp
    show "map int [0..<length s1 + 1] ! k = ed_prefix s1 s2 (1 - 1) k" if "k \<le> length s1" for k
    proof -
      have "map int [0..<length s1 + 1] ! k = int ([0..<length s1 + 1] ! k)"
        using that by (intro nth_map) simp
      also have "\<dots> = int k" using that by (simp del: upt_Suc add: nth_upt)
      finally show ?thesis using that by (simp add: ed_prefix_0)
    qed
  qed
  then show ?thesis by (simp add: ed_prefix_def ed_rev)
qed

lemma levenshtein_ed: "levenshtein a b = int (ed a b)"
proof (cases "a = b")
  case True
  then show ?thesis by (simp add: levenshtein_def)
next
  case False
  show ?thesis
  proof (cases "blen a > blen b")
    case True
    then show ?thesis using False lev_table[of b a] by (simp add: levenshtein_def Let_def)
  next
    case False
    then show ?thesis using \<open>a \<noteq> b\<close> lev_table[of a b] by (simp add: levenshtein_def Let_def ed_sym)
  qed
qed

text \<open>
  C9. \<^verbatim>\<open>levenshtein\<close> is the edit distance of the two rune sequences. It is symmetric,
  zero exactly for equal sequences, and satisfies the triangle inequality; the three
  values of the specification are 4, 0 and 1.
\<close>

theorem levenshtein_edit_distance:
  "levenshtein a b = int (ed a b)
   \<and> levenshtein a b = levenshtein b a
   \<and> (levenshtein a b = 0 \<longleftrightarrow> a = b)
   \<and> levenshtein a c \<le> levenshtein a b + levenshtein b c
   \<and> levenshtein [] [0x4E2D, 0x6587, 0x8001, 0x5E2B] = 4
   \<and> levenshtein [0x4E2D, 0x6587, 0x8001, 0x5E2B] [0x4E2D, 0x6587, 0x8001, 0x5E2B] = 0
   \<and> levenshtein [0x4E2D, 0x6587] [0x4E2D, 0x570B] = 1"
proof -
  have 1: "levenshtein a b = levenshtein b a"
    by (simp add: levenshtein_ed ed_sym)
  have 2: "levenshtein a b = 0 \<longleftrightarrow> a = b"
    by (simp add: levenshtein_ed ed_zero_iff)
  have 3: "levenshtein a c \<le> levenshtein a b + levenshtein b c"
    using ed_triangle[of a c b] by (simp add: levenshtein_ed)
  have 4: "levenshtein [] [0x4E2D, 0x6587, 0x8001, 0x5E2B] = 4"
    by (simp add: levenshtein_ed)
  have 5: "levenshtein [0x4E2D, 0x6587, 0x8001, 0x5E2B] [0x4E2D, 0x6587, 0x8001, 0x5E2B] = 0"
    by (simp add: levenshtein_ed)
  have 6: "levenshtein [0x4E2D, 0x6587] [0x4E2D, 0x570B] = 1"
    by (simp add: levenshtein_ed)
  from 1 2 3 4 5 6 show ?thesis by (simp add: levenshtein_ed)
qed

section \<open>Properties of the meaning lookup\<close>

lemma meaning_loop_find:
  "meaning_loop U s ms =
     map_option (\<lambda>m. levenshtein s (ToLower U m))
       (find (\<lambda>m. Contains s (ToLower U m) \<and> levenshtein s (ToLower U m) \<le> MaxLD) ms)"
  by (induction ms) (auto simp: Let_def)

lemma meaning_loop_match:
  "meaning_loop U s (Meanings e) =
     (if first_match U s e = None then None else Some (match_dist U s e))"
  by (auto simp: meaning_loop_find first_match_def match_dist_def split: option.splits)

lemma entry_loop_filter:
  "entry_loop U s es (rs, lev) =
     (rs @ filter (\<lambda>e. first_match U s e \<noteq> None) es,
      (\<lambda>e. if e \<in> set es \<and> first_match U s e \<noteq> None then Some (match_dist U s e) else lev e))"
proof (induction es arbitrary: rs lev)
  case Nil
  then show ?case by simp
next
  case (Cons e es)
  show ?case
  proof (cases "first_match U s e = None")
    case True
    then show ?thesis
      by (auto simp: meaning_loop_match Cons.IH fun_eq_iff)
  next
    case False
    then show ?thesis
      by (auto simp: meaning_loop_match Cons.IH fun_eq_iff)
  qed
qed

lemma insort_key_cong_on:
  "f a = g a \<Longrightarrow> (\<And>x. x \<in> set xs \<Longrightarrow> f x = g x) \<Longrightarrow> insort_key f a xs = insort_key g a xs"
  by (induction xs) auto

lemma sort_key_cong_on:
  "(\<And>x. x \<in> set xs \<Longrightarrow> f x = g x) \<Longrightarrow> sort_key f xs = sort_key g xs"
proof (induction xs)
  case Nil
  then show ?case by simp
next
  case (Cons a xs)
  have "sort_key f xs = sort_key g xs" using Cons by simp
  moreover have "insort_key f a (sort_key g xs) = insort_key g a (sort_key g xs)"
    by (rule insort_key_cong_on) (use Cons.prems in auto)
  ultimately show ?case by simp
qed

lemma GetByMeaning_eq:
  "GetByMeaning U d q =
     take MaxResults (sort_key (match_dist U (ToLower U q))
       (filter (\<lambda>e. first_match U (ToLower U q) e \<noteq> None) (d_e d)))"
proof -
  let ?s = "ToLower U q"
  let ?xs = "filter (\<lambda>e. first_match U ?s e \<noteq> None) (d_e d)"
  let ?lev = "\<lambda>e. if e \<in> set (d_e d) \<and> first_match U ?s e \<noteq> None
       then Some (match_dist U ?s e) else None"
  have "sort_key (lev_at ?lev) ?xs = sort_key (match_dist U ?s) ?xs"
    by (rule sort_key_cong_on) (simp add: lev_at_def)
  moreover have "(if length xs > MaxResults then take MaxResults xs else xs) = take MaxResults xs"
    for xs :: "Entry list"
    by simp
  ultimately show ?thesis
    by (simp only: GetByMeaning_def entry_loop_filter Let_def prod.case append_Nil)
qed

lemma count_list_filter_le: "count_list (filter P xs) x \<le> count_list xs x"
  by (induction xs) auto

lemma count_list_take_le: "count_list (take n xs) x \<le> count_list xs x"
proof (induction xs arbitrary: n)
  case Nil
  then show ?case by simp
next
  case (Cons a xs)
  then show ?case by (cases n) (auto intro: le_SucI)
qed

lemma count_list_insort_key: "count_list (insort_key f a xs) x = count_list (a # xs) x"
  by (induction xs) auto

lemma count_list_sort_key: "count_list (sort_key f xs) x = count_list xs x"
  by (induction xs) (auto simp: count_list_insort_key)

text \<open>
  C4, as the code has it. For each entry the meanings are tried in their order, and the
  first one that the lowercased query contains and that is at most \<open>MaxLD\<close> away from it
  decides: a meaning that the query contains but that is too far away is passed over and
  the next meaning is tried. An entry with no such meaning gives no result and every other
  entry gives one; the results are in ascending order of that distance, entries at the
  same distance in the order of the dictionary, and at most \<open>MaxResults\<close> are returned.
\<close>

theorem GetByMeaning_first_match_within:
  "GetByMeaning U d q =
     take MaxResults (sort_key (match_dist U (ToLower U q))
       (filter (\<lambda>e. first_match U (ToLower U q) e \<noteq> None) (d_e d)))
   \<and> length (GetByMeaning U d q) \<le> MaxResults
   \<and> sorted (map (match_dist U (ToLower U q)) (GetByMeaning U d q))
   \<and> (\<forall>e. count_list (GetByMeaning U d q) e \<le> count_list (d_e d) e)
   \<and> list_all (\<lambda>e. first_match U (ToLower U q) e \<noteq> None) (GetByMeaning U d q)"
proof -
  let ?s = "ToLower U q"
  let ?xs = "filter (\<lambda>e. first_match U ?s e \<noteq> None) (d_e d)"
  have 1: "GetByMeaning U d q = take MaxResults (sort_key (match_dist U ?s) ?xs)"
    by (rule GetByMeaning_eq)
  have 2: "length (GetByMeaning U d q) \<le> MaxResults"
    unfolding 1 by simp
  have "sorted (map (match_dist U ?s) (sort_key (match_dist U ?s) ?xs))"
    by (rule sorted_sort_key)
  then have 3: "sorted (map (match_dist U ?s) (GetByMeaning U d q))"
    unfolding 1 by (simp add: take_map[symmetric] sorted_wrt_take)
  have 4: "count_list (GetByMeaning U d q) e \<le> count_list (d_e d) e" for e
  proof -
    have "count_list (GetByMeaning U d q) e \<le> count_list (sort_key (match_dist U ?s) ?xs) e"
      unfolding 1 by (rule count_list_take_le)
    also have "\<dots> = count_list ?xs e" by (rule count_list_sort_key)
    also have "\<dots> \<le> count_list (d_e d) e" by (rule count_list_filter_le)
    finally show ?thesis .
  qed
  have "set (GetByMeaning U d q) \<subseteq> set ?xs"
    unfolding 1 using set_take_subset[of MaxResults "sort_key (match_dist U ?s) ?xs"] by simp
  then have 5: "list_all (\<lambda>e. first_match U ?s e \<noteq> None) (GetByMeaning U d q)"
    by (auto simp: list_all_iff)
  from 1 2 3 4 5 show ?thesis by blast
qed

text \<open>
  C4 as stated fails: the query \<^verbatim>\<open>abcdefghijkl\<close> contains the first meaning \<^verbatim>\<open>a\<close> at
  distance 11, and the code goes on to the second meaning, which is the query itself.
\<close>

theorem GetByMeaning_counterexample:
  "GetByMeaning ascii_tables meaning_sample (asc ''abcdefghijkl'') = d_e meaning_sample
   \<and> GetByMeaning_claimed ascii_tables meaning_sample (asc ''abcdefghijkl'') = []
   \<and> d_e meaning_sample \<noteq> []"
proof -
  have l: "ToLower ascii_tables (asc ''abcdefghijkl'') = asc ''abcdefghijkl''"
    "ToLower ascii_tables (asc ''a'') = asc ''a''"
    by (simp_all add: ToLower_def ascii_tables_def asc_def)
  have c: "Contains (asc ''abcdefghijkl'') (asc ''a'')" "Contains (asc ''abcdefghijkl'') (asc ''abcdefghijkl'')"
    by (simp_all add: asc_def HasPrefix_def)
  have d1: "levenshtein (asc ''abcdefghijkl'') (asc ''a'') = 11"
    by (simp add: levenshtein_ed asc_def)
  have d2: "levenshtein (asc ''abcdefghijkl'') (asc ''abcdefghijkl'') = 0"
    by (simp add: levenshtein_def)
  have ne: "asc ''a'' \<noteq> asc ''abcdefghijkl''" by (simp add: asc_def)
  show ?thesis
    using ne
    by (simp add: GetByMeaning_eq GetByMeaning_claimed_def meaning_sample_def newDict_def
        first_match_def claimed_match_def first_contained_def l c d1 d2 MaxLD_def MaxResults_def)
qed

section \<open>Properties of the tone codec\<close>

lemmas tone_eval = PinyinToneNums_def Split_def asc_def mapToneToNum_def mapToneToNum_table_def
  TrimSpace_def isSpace_def Let_def toneNums_def

lemmas tones_eval = PinyinTones_def tone_word_def guessToneIndex_def vowels_def mapNumToTone_def
  mapNumToTone_table_def HasPrefix_def

lemma HasPrefix_set: "HasPrefix s old \<Longrightarrow> set old \<subseteq> set s"
  unfolding HasPrefix_def by (metis set_take_subset)

lemma ReplaceAll_absent: "c \<in> set old \<Longrightarrow> c \<notin> set s \<Longrightarrow> ReplaceAll s old new = s"
proof (induction s)
  case Nil
  then show ?case by simp
next
  case (Cons r rs)
  have "\<not> HasPrefix (r # rs) old"
    using Cons.prems HasPrefix_set[of "r # rs" old] by auto
  then show ?case using Cons by simp
qed

lemma Split_from_none: "sep \<notin> set s \<Longrightarrow> Split_from sep cur s = [cur @ s]"
  by (induction s arbitrary: cur) auto

lemma Split_none: "sep \<notin> set s \<Longrightarrow> Split s sep = [s]"
  by (simp add: Split_def Split_from_none)

lemma Index_Some: "Index s v = Some i \<Longrightarrow> i < length s \<and> s ! i = v"
  by (induction s arbitrary: i) (auto split: if_splits)

lemma Index_None: "Index s v = None \<longleftrightarrow> v \<notin> set s"
  by (induction s) auto

lemma guess_Some: "guessToneIndex_from vs s = Some i \<Longrightarrow> i < length s \<and> s ! i \<in> set vs"
  by (induction vs) (auto split: option.splits dest: Index_Some)

lemma guess_append:
  "guessToneIndex_from (vs1 @ vs2) s =
     (case guessToneIndex_from vs1 s of Some i \<Rightarrow> Some i | None \<Rightarrow> guessToneIndex_from vs2 s)"
  by (induction vs1) (auto split: option.splits)

lemma Index_Some_mem: "Index s v = Some i \<Longrightarrow> v \<in> set s"
  using Index_Some[of s v i] by auto

lemma guess_None: "guessToneIndex_from vs s = None \<longleftrightarrow> (\<forall>v \<in> set vs. v \<notin> set s)"
  by (induction vs) (auto simp: Index_None split: option.splits dest: Index_Some_mem)

lemma dropWhile_all_not:
  "list_all (\<lambda>r. \<not> P r) x \<Longrightarrow> dropWhile P (x @ ys) = (if x = [] then dropWhile P ys else x @ ys)"
  by (cases x) auto

lemma TrimSpace_no_space: "list_all (\<lambda>r. \<not> isSpace r) x \<Longrightarrow> TrimSpace x = x"
proof -
  assume a: "list_all (\<lambda>r. \<not> isSpace r) x"
  then have b: "list_all (\<lambda>r. \<not> isSpace r) (rev x)" by (simp add: list_all_iff)
  have "dropWhile isSpace x = x" using dropWhile_all_not[OF a, of "[]"] by simp
  moreover have "dropWhile isSpace (rev x) = rev x" using dropWhile_all_not[OF b, of "[]"] by simp
  ultimately show ?thesis by (simp add: TrimSpace_def)
qed

lemma TrimSpace_trailing: "list_all (\<lambda>r. \<not> isSpace r) x \<Longrightarrow> TrimSpace (x @ asc '' '') = x"
proof -
  assume a: "list_all (\<lambda>r. \<not> isSpace r) x"
  then have b: "list_all (\<lambda>r. \<not> isSpace r) (rev x)" by (simp add: list_all_iff)
  have sp: "isSpace 0x20" by (simp add: isSpace_def)
  have 1: "dropWhile isSpace (x @ [0x20]) = (if x = [] then [] else x @ [0x20])"
    using dropWhile_all_not[OF a, of "[0x20]"] sp by simp
  have 2: "dropWhile isSpace (rev x) = rev x"
    using dropWhile_all_not[OF b, of "[]"] by simp
  show ?thesis
    unfolding TrimSpace_def asc_def using 1 2 sp by (cases "x = []") simp_all
qed

lemma nums_runes_append:
  "nums_runes (xs @ ys) res tone =
     (case nums_runes xs res tone of (r1, t1) \<Rightarrow> nums_runes ys r1 t1)"
  by (induction xs arbitrary: res tone) (auto simp: Let_def)

lemma nums_runes_plain:
  "list_all (\<lambda>r. mapToneToNum r = []) xs \<Longrightarrow> nums_runes xs res tone = (res @ xs, tone)"
  by (induction xs arbitrary: res) (auto simp: Let_def)

lemma letters_plain: "r \<in> set tone_letters \<Longrightarrow> mapToneToNum r = []"
  by (auto simp: tone_letters_def mapToneToNum_def mapToneToNum_table_def)

lemma letters_not_space: "r \<in> set tone_letters \<Longrightarrow> \<not> isSpace r"
  by (auto simp: tone_letters_def isSpace_def)

lemma tone_ok_all: "list_all (\<lambda>k. list_all (tone_ok k) (asc ''1234'')) marked_vowels"
  by (simp add: marked_vowels_def asc_def tone_ok_def tone_of_def mapNumToTone_def
      mapNumToTone_table_def mapToneToNum_def mapToneToNum_table_def isSpace_def)

lemma tone_inverse:
  assumes "k \<in> set marked_vowels" "t \<in> set (asc ''1234'')"
  shows "tone_ok k t"
  using assms tone_ok_all by (simp add: list_all_iff)

lemma IndexAny_last:
  "list_all (\<lambda>r. r \<notin> set chars) p \<Longrightarrow> t \<in> set chars \<Longrightarrow> IndexAny (p @ [t]) chars = Some (length p)"
  by (induction p) auto

lemma IndexAny_none: "list_all (\<lambda>r. r \<notin> set chars) p \<Longrightarrow> IndexAny p chars = None"
  by (induction p) auto

lemma letters_no_digit: "r \<in> set tone_letters \<Longrightarrow> r \<notin> set toneNums"
  by (auto simp: tone_letters_def toneNums_def asc_def)

lemma letters_no_colon_space: "r \<in> set tone_letters \<Longrightarrow> r \<noteq> 0x3A \<and> r \<noteq> 0x20 \<and> r \<noteq> 0xFC"
  by (auto simp: tone_letters_def)

lemma digit_facts:
  "t \<in> set (asc ''1234'') \<Longrightarrow>
     t \<in> set toneNums \<and> t \<notin> set marked_vowels \<and> t \<noteq> 0x3A \<and> t \<noteq> 0x20 \<and> t \<noteq> 0xFC \<and> t \<noteq> 0x72
     \<and> \<not> isSpace t \<and> mapToneToNum t = []
     \<and> 0 \<le> int t - 0x30 - 1 \<and> int t - 0x30 - 1 < int (length mapNumToTone_table)"
  by (auto simp: toneNums_def asc_def marked_vowels_def isSpace_def mapToneToNum_def
      mapToneToNum_table_def mapNumToTone_table_def)

lemma vowels_split: "vowels = marked_vowels @ [0xFC, 0x72]"
  by (simp add: vowels_def marked_vowels_def)

lemma marked_letters: "r \<in> set marked_vowels \<Longrightarrow> r \<in> set tone_letters"
  by (auto simp: marked_vowels_def tone_letters_def)

lemma tone_word_marked:
  assumes p: "list_all (\<lambda>r. r \<in> set tone_letters) p"
    and m: "list_ex (\<lambda>r. r \<in> set marked_vowels) p"
    and t: "t \<in> set (asc ''1234'')"
  shows "\<exists>i ts. i < length p \<and> p ! i \<in> set marked_vowels \<and> mapNumToTone (p ! i) = Some ts
      \<and> tone_ok (p ! i) t
      \<and> tone_word (p @ [t]) = Ok (take i p @ [ts ! tone_of t] @ drop (i + 1) p @ asc '' '')"
proof -
  note d = digit_facts[OF t]
  have ex: "\<exists>v \<in> set marked_vowels. v \<in> set (p @ [t])"
    using m by (auto simp: list_ex_iff)
  then obtain i where g: "guessToneIndex_from marked_vowels (p @ [t]) = Some i"
    using guess_None[of marked_vowels "p @ [t]"] by (cases "guessToneIndex_from marked_vowels (p @ [t])") auto
  have gi: "i < length (p @ [t])" "(p @ [t]) ! i \<in> set marked_vowels"
    using guess_Some[OF g] by auto
  have "i \<noteq> length p"
    using gi(2) d by (auto simp: nth_append)
  then have il: "i < length p" using gi(1) by simp
  then have pi: "p ! i \<in> set marked_vowels" using gi(2) by (simp add: nth_append)
  have G: "guessToneIndex (p @ [t]) = Some i"
    by (simp add: guessToneIndex_def vowels_split guess_append g)
  have nd: "list_all (\<lambda>r. r \<notin> set toneNums) p"
    using p letters_no_digit by (auto simp: list_all_iff)
  have I: "IndexAny (p @ [t]) toneNums = Some (length p)"
    using IndexAny_last[OF nd] d by simp
  have ok: "tone_ok (p ! i) t" by (rule tone_inverse[OF pi t])
  then obtain ts where ts: "mapNumToTone (p ! i) = Some ts" "tone_of t < length ts"
    by (auto simp: tone_ok_def split: option.splits)
  have "tone_word (p @ [t]) = Ok (take i p @ [ts ! tone_of t] @ drop (i + 1) p @ asc '' '')"
    using d il ts by (simp add: tone_word_def G I Let_def tone_of_def)
  with il pi ts ok show ?thesis by blast
qed

lemma PinyinTones_single:
  assumes "0x3A \<notin> set w" "0x20 \<notin> set w" "tone_word w = Ok (x @ asc '' '')"
    "list_all (\<lambda>r. \<not> isSpace r) x"
  shows "PinyinTones w = Ok x"
proof -
  have "ReplaceAll w (asc ''u:'') [0xFC] = w"
    by (rule ReplaceAll_absent[of "0x3A"]) (use assms(1) in \<open>simp_all add: asc_def\<close>)
  then show ?thesis
    using assms by (simp add: PinyinTones_def Split_none TrimSpace_trailing)
qed

lemma PinyinToneNums_single:
  assumes "0x20 \<notin> set w" "nums_runes w [] [] = (x, tone)" "list_all (\<lambda>r. \<not> isSpace r) (x @ tone)"
  shows "PinyinToneNums w = x @ tone"
  using assms TrimSpace_trailing[of "x @ tone"]
  by (simp add: PinyinToneNums_def Split_none)

text \<open>
  C3, as the code has it. A token of the letters A a E e i O o u r, at least one of them
  not r, followed by one tone digit from 1 to 4, comes back unchanged from
  \<^verbatim>\<open>PinyinTones\<close> and then \<^verbatim>\<open>PinyinToneNums\<close>; so does a token of these letters with no
  digit.
\<close>

theorem tone_codec_inverse:
  "(list_all (\<lambda>r. r \<in> set tone_letters) p \<and> list_ex (\<lambda>r. r \<in> set marked_vowels) p
      \<and> t \<in> set (asc ''1234'')
    \<longrightarrow> (\<exists>x. PinyinTones (p @ [t]) = Ok x \<and> PinyinToneNums x = p @ [t]))
   \<and> (list_all (\<lambda>r. r \<in> set tone_letters) w
    \<longrightarrow> PinyinTones w = Ok w \<and> PinyinToneNums w = w)"
proof -
  have A: "\<exists>x. PinyinTones (p @ [t]) = Ok x \<and> PinyinToneNums x = p @ [t]"
    if p: "list_all (\<lambda>r. r \<in> set tone_letters) p"
      and m: "list_ex (\<lambda>r. r \<in> set marked_vowels) p" and t: "t \<in> set (asc ''1234'')"
  proof -
  note d = digit_facts[OF t]
  from tone_word_marked[OF p m t] obtain i ts where i:
    "i < length p" "p ! i \<in> set marked_vowels" "mapNumToTone (p ! i) = Some ts"
    "tone_ok (p ! i) t"
    "tone_word (p @ [t]) = Ok (take i p @ [ts ! tone_of t] @ drop (i + 1) p @ asc '' '')"
    by blast
  let ?m = "ts ! tone_of t"
  let ?x = "take i p @ [?m] @ drop (i + 1) p"
  have mk: "mapToneToNum ?m = [p ! i, t]" "\<not> isSpace ?m"
    using i(3,4) by (auto simp: tone_ok_def)
  have pns: "list_all (\<lambda>r. \<not> isSpace r) p"
    using p letters_not_space by (auto simp: list_all_iff)
  have pin: "\<And>r. r \<in> set p \<Longrightarrow> r \<in> set tone_letters"
    using p by (auto simp: list_all_iff)
  have xns: "list_all (\<lambda>r. \<not> isSpace r) ?x"
    using pns mk(2) by (auto simp: list_all_iff dest: in_set_takeD in_set_dropD)
  have w1: "0x3A \<notin> set (p @ [t])" "0x20 \<notin> set (p @ [t])"
    using pin letters_no_colon_space d by auto
  have T: "PinyinTones (p @ [t]) = Ok ?x"
    by (rule PinyinTones_single[OF w1 _ xns]) (use i(5) in simp)
  have plain1: "list_all (\<lambda>r. mapToneToNum r = []) (take i p)"
    using pin letters_plain by (auto simp: list_all_iff dest: in_set_takeD)
  have plain2: "list_all (\<lambda>r. mapToneToNum r = []) (drop (Suc i) p)"
    using pin letters_plain by (auto simp: list_all_iff dest: in_set_dropD)
  have tsp: "TrimSpace [t] = [t]"
    using d by (intro TrimSpace_no_space) simp
  have "nums_runes ?x [] [] = (take i p @ [p ! i] @ drop (i + 1) p, [t])"
    using mk(1) tsp
    by (simp add: nums_runes_append nums_runes_plain[OF plain1] nums_runes_plain[OF plain2] Let_def)
  also have "take i p @ [p ! i] @ drop (i + 1) p = p"
    using i(1) by (simp add: id_take_nth_drop[symmetric])
  finally have nr: "nums_runes ?x [] [] = (p, [t])" .
  have x20: "0x20 \<notin> set ?x"
    using xns by (auto simp: list_all_iff isSpace_def)
  have N: "PinyinToneNums ?x = p @ [t]"
    by (rule PinyinToneNums_single[OF x20 nr]) (use pns d in simp)
  from T N show ?thesis by blast
  qed
  have B: "PinyinTones w = Ok w \<and> PinyinToneNums w = w"
    if w: "list_all (\<lambda>r. r \<in> set tone_letters) w"
  proof -
  have win: "\<And>r. r \<in> set w \<Longrightarrow> r \<in> set tone_letters"
    using w by (auto simp: list_all_iff)
  have wns: "list_all (\<lambda>r. \<not> isSpace r) w"
    using w letters_not_space by (auto simp: list_all_iff)
  have w1: "0x3A \<notin> set w" "0x20 \<notin> set w"
    using win letters_no_colon_space by auto
  have nd: "list_all (\<lambda>r. r \<notin> set toneNums) w"
    using w letters_no_digit by (auto simp: list_all_iff)
  have tw: "tone_word w = Ok (w @ asc '' '')"
    by (simp add: tone_word_def IndexAny_none[OF nd] split: option.splits)
  have T: "PinyinTones w = Ok w"
    by (rule PinyinTones_single[OF w1 tw wns])
  have plain: "list_all (\<lambda>r. mapToneToNum r = []) w"
    using win letters_plain by (auto simp: list_all_iff)
  have nr: "nums_runes w [] [] = (w, [])"
    using nums_runes_plain[OF plain, of "[]" "[]"] by simp
  have N: "PinyinToneNums w = w @ []"
    by (rule PinyinToneNums_single[OF w1(2) nr]) (use wns in simp)
  from T N show ?thesis by simp
  qed
  from A B show ?thesis by blast
qed

theorem tone_codec_inverse_witness:
  "list_all (\<lambda>r. r \<in> set tone_letters) (asc ''ia'')
   \<and> list_ex (\<lambda>r. r \<in> set marked_vowels) (asc ''ia'')
   \<and> 0x31 \<in> set (asc ''1234'')
   \<and> (\<exists>x. PinyinTones (asc ''ia'' @ [0x31]) = Ok x \<and> PinyinToneNums x = asc ''ia'' @ [0x31])
   \<and> PinyinTones (asc ''ia'') = Ok (asc ''ia'') \<and> PinyinToneNums (asc ''ia'') = asc ''ia''"
proof -
  have 1: "list_all (\<lambda>r. r \<in> set tone_letters) (asc ''ia'')"
    by (simp add: tone_letters_def asc_def)
  have 2: "list_ex (\<lambda>r. r \<in> set marked_vowels) (asc ''ia'')"
    by (simp add: marked_vowels_def asc_def)
  have 3: "0x31 \<in> set (asc ''1234'')"
    by (simp add: asc_def)
  from 1 2 3 tone_codec_inverse[of "asc ''ia''" "0x31" "asc ''ia''"] show ?thesis by blast
qed

text \<open>
  C3 as stated fails on its alphabet: the digit 5 is dropped (\<^verbatim>\<open>a5\<close> comes back as
  \<^verbatim>\<open>a\<close>), and U+00FC comes back as the two characters \<^verbatim>\<open>u:\<close>.
\<close>

theorem tone_codec_counterexample:
  "list_all (\<lambda>r. r \<in> set tone_alphabet) (asc ''a5'')
   \<and> PinyinTones (asc ''a5'') = Ok (asc ''a'')
   \<and> PinyinToneNums (asc ''a'') = asc ''a''
   \<and> asc ''a'' \<noteq> asc ''a5''
   \<and> list_all (\<lambda>r. r \<in> set tone_alphabet) [0xFC, 0x31]
   \<and> PinyinTones [0xFC, 0x31] = Ok [0x1D6]
   \<and> PinyinToneNums [0x1D6] = asc ''u:1''
   \<and> asc ''u:1'' \<noteq> [0xFC, 0x31]"
proof -
  have 1: "list_all (\<lambda>r. r \<in> set tone_alphabet) (asc ''a5'')"
    "list_all (\<lambda>r. r \<in> set tone_alphabet) [0xFC, 0x31]"
    by (simp_all add: tone_alphabet_def vowels_def toneNums_def asc_def)
  have 2: "PinyinTones (asc ''a5'') = Ok (asc ''a'')" "PinyinTones [0xFC, 0x31] = Ok [0x1D6]"
    by (simp_all add: tones_eval tone_eval)
  have 3: "PinyinToneNums (asc ''a'') = asc ''a''" "PinyinToneNums [0x1D6] = asc ''u:1''"
    by (simp_all add: tone_eval)
  have 4: "asc ''a'' \<noteq> asc ''a5''" "asc ''u:1'' \<noteq> [0xFC, 0x31]"
    by (simp_all add: asc_def)
  from 1 2 3 4 show ?thesis by blast
qed

text \<open>
  With the digit in front of the vowel the index of the vowel is stale and
  \<^verbatim>\<open>PinyinTones\<close> panics.
\<close>

lemma PinyinTones_digit_first_panics: "PinyinTones (asc ''1a'') = Panic IndexOutOfRange"
  by (simp add: tones_eval tone_eval)

section \<open>Properties of the pinyin lookup\<close>

lemma pinyin_loop_filter:
  "pinyin_loop U plain s es rs = rs @ filter (\<lambda>e. candidate U plain e = s) es"
  by (induction es arbitrary: rs) (auto simp: candidate_def Let_def)

lemma GetByPinyin_eq:
  "GetByPinyin U d q =
     sort_key Pinyin (filter (\<lambda>e. candidate U (is_plaintext q) e = normal_query U q) (d_e d))"
  by (simp add: GetByPinyin_def pinyin_loop_filter is_plaintext_def normal_query_def Let_def)

lemma IndexAny_None: "IndexAny s chars = None \<longleftrightarrow> list_all (\<lambda>r. r \<notin> set chars) s"
  by (induction s) auto

lemma ReplaceAll_space: "ReplaceAll s (asc '' '') [] = filter (\<lambda>r. r \<noteq> 0x20) s"
  by (induction s) (auto simp: asc_def HasPrefix_def)

text \<open>
  C5, as the code has it. The query is converted to tone numbers; it is plaintext exactly
  when the result holds none of the digits 1 to 5. Query and stored pinyin are lowercased
  and lose their spaces, and for a plaintext query the stored pinyin also loses every
  digit; the entries whose text then equals the query's are returned in ascending order
  of their stored pinyin, equal ones in the order of the dictionary. A query whose only
  digits are outside 1 to 5 is therefore plaintext: it keeps its digit, the candidates
  have none left, and no entry matches, whatever its stored pinyin.
\<close>

theorem GetByPinyin_plaintext_by_tone_digits:
  "GetByPinyin U d q =
     sort_key Pinyin (filter (\<lambda>e. candidate U (is_plaintext q) e = normal_query U q) (d_e d))
   \<and> sorted (map Pinyin (GetByPinyin U d q))
   \<and> (is_plaintext q \<longleftrightarrow> list_all (\<lambda>r. r \<notin> set (asc ''12345'')) (PinyinToneNums q))
   \<and> (is_plaintext q \<and> list_ex (unicode_IsDigit U) (normal_query U q) \<and> strips_all_digits U
        \<longrightarrow> GetByPinyin U d q = [])"
proof -
  have 1: "GetByPinyin U d q =
     sort_key Pinyin (filter (\<lambda>e. candidate U (is_plaintext q) e = normal_query U q) (d_e d))"
    by (rule GetByPinyin_eq)
  have 2: "sorted (map Pinyin (GetByPinyin U d q))"
    unfolding 1 by (rule sorted_sort_key)
  have 3: "is_plaintext q \<longleftrightarrow> list_all (\<lambda>r. r \<notin> set (asc ''12345'')) (PinyinToneNums q)"
    by (simp add: is_plaintext_def IndexAny_None toneNums_def)
  have 4: "GetByPinyin U d q = []"
    if p: "is_plaintext q" and dg: "list_ex (unicode_IsDigit U) (normal_query U q)"
      and st: "strips_all_digits U"
  proof -
    have "candidate U (is_plaintext q) e \<noteq> normal_query U q" for e
    proof
      assume eq: "candidate U (is_plaintext q) e = normal_query U q"
      have "list_all (\<lambda>r. \<not> unicode_IsDigit U r) (candidate U (is_plaintext q) e)"
        using p st by (simp add: candidate_def strips_all_digits_def)
      with eq dg show False by (auto simp: list_all_iff list_ex_iff)
    qed
    then show ?thesis unfolding 1 by simp
  qed
  from 1 2 3 4 show ?thesis by blast
qed

lemma strips_all_digits_ascii: "strips_all_digits ascii_tables"
  by (simp add: strips_all_digits_def StripDigits_def ascii_tables_def list_all_iff)

theorem GetByPinyin_plaintext_witness:
  "is_plaintext (asc ''zhong6'')
   \<and> list_ex (unicode_IsDigit ascii_tables) (normal_query ascii_tables (asc ''zhong6''))
   \<and> strips_all_digits ascii_tables
   \<and> GetByPinyin ascii_tables pinyin_sample (asc ''zhong6'') = []"
proof -
  have t: "PinyinToneNums (asc ''zhong6'') = asc ''zhong6''"
    by (simp add: tone_eval)
  have p: "is_plaintext (asc ''zhong6'')"
    unfolding is_plaintext_def t by (simp add: asc_def toneNums_def)
  have n: "normal_query ascii_tables (asc ''zhong6'') = asc ''zhong6''"
    unfolding normal_query_def t ReplaceAll_space
    by (simp add: ToLower_def ascii_tables_def asc_def)
  have dg: "list_ex (unicode_IsDigit ascii_tables) (normal_query ascii_tables (asc ''zhong6''))"
    unfolding n by (simp add: ascii_tables_def asc_def)
  from p dg strips_all_digits_ascii
    GetByPinyin_plaintext_by_tone_digits[of ascii_tables pinyin_sample "asc ''zhong6''"]
  show ?thesis by blast
qed

text \<open>
  C5 as stated fails: \<^verbatim>\<open>zhong6\<close> is not compared as it is. An entry whose stored pinyin is
  \<^verbatim>\<open>zhong6\<close> matches the query exactly and is not returned.
\<close>

theorem GetByPinyin_counterexample:
  "GetByPinyin ascii_tables pinyin_sample (asc ''zhong6'') = []
   \<and> GetByPinyin_claimed ascii_tables pinyin_sample (asc ''zhong6'') = d_e pinyin_sample
   \<and> d_e pinyin_sample \<noteq> []"
proof -
  have t: "PinyinToneNums (asc ''zhong6'') = asc ''zhong6''"
    by (simp add: tone_eval)
  have l: "ToLower ascii_tables (asc ''zhong6'') = asc ''zhong6''"
    by (simp add: ToLower_def ascii_tables_def asc_def)
  have f: "filter (\<lambda>r. r \<noteq> 0x20) (asc ''zhong6'') = asc ''zhong6''"
    by (simp add: asc_def)
  have s: "StripDigits ascii_tables (asc ''zhong6'') = asc ''zhong''"
    by (simp add: StripDigits_def ascii_tables_def asc_def)
  have ne: "asc ''zhong'' \<noteq> asc ''zhong6''" by (simp add: asc_def)
  have i: "IndexAny (asc ''zhong6'') toneNums = None"
    by (simp add: asc_def toneNums_def)
  have dg: "\<not> list_all (\<lambda>r. \<not> unicode_IsDigit ascii_tables r) (asc ''zhong6'')"
    by (simp add: ascii_tables_def asc_def)
  show ?thesis
    using ne dg
    by (simp add: GetByPinyin_def GetByPinyin_claimed_def pinyin_sample_def newDict_def t l
        ReplaceAll_space f s i Let_def)
qed

section \<open>Properties of the transliteration\<close>

lemma standard_tables_ascii: "standard_tables ascii_tables"
  by (simp add: standard_tables_def ascii_tables_def)

lemma standard_ToLower:
  "standard_tables U \<Longrightarrow> list_all (\<lambda>r. r < 0x80) s \<Longrightarrow> ToLower U s = ToLower ascii_tables s"
  by (simp add: standard_tables_def ToLower_def list_all_iff)

lemma standard_ToUpper:
  "standard_tables U \<Longrightarrow> list_all (\<lambda>r. r < 0x80) s \<Longrightarrow> ToUpper U s = ToUpper ascii_tables s"
  by (simp add: standard_tables_def ToUpper_def list_all_iff)

lemma standard_Han:
  "standard_tables U \<Longrightarrow> 0x4E00 \<le> r \<Longrightarrow> r \<le> 0x9FA5 \<Longrightarrow> unicode_Han U r"
  by (simp add: standard_tables_def)

lemma standard_not_Han:
  "standard_tables U \<Longrightarrow> r < 0x80 \<Longrightarrow> \<not> unicode_Han U r"
  by (simp add: standard_tables_def)

lemma segment_wo_de_da_wang:
  assumes U: "standard_tables U"
    and "map_option Pinyin (GetByHanzi d [0x6211]) = Some (asc ''wo3'')"
    and "map_option Pinyin (GetByHanzi d [0x7684]) = Some (asc ''de5'')"
    and "map_option Pinyin (GetByHanzi d [0x5927, 0x738B]) = Some (asc ''da4 wang2'')"
    and "list_all (\<lambda>h. GetByHanzi d h = None)
           [[0x6211, 0x7684, 0x5927, 0x738B, 0x21], [0x6211, 0x7684, 0x5927, 0x738B],
            [0x6211, 0x7684, 0x5927], [0x6211, 0x7684],
            [0x7684, 0x5927, 0x738B, 0x21], [0x7684, 0x5927, 0x738B], [0x7684, 0x5927],
            [0x5927, 0x738B, 0x21]]"
  shows "segment U d [0x6211, 0x7684, 0x5927, 0x738B, 0x21] [] = asc ''wo3 de5 da4 wang2 ! ''"
proof -
  have h: "unicode_Han U 0x6211" "unicode_Han U 0x7684" "unicode_Han U 0x5927" "unicode_Han U 0x738B"
    by (rule standard_Han[OF U]; simp)+
  have n: "\<not> unicode_Han U 0x21"
    by (rule standard_not_Han[OF U]) simp
  obtain e1 e2 e3 where e:
    "GetByHanzi d [0x6211] = Some e1" "Pinyin e1 = asc ''wo3''"
    "GetByHanzi d [0x7684] = Some e2" "Pinyin e2 = asc ''de5''"
    "GetByHanzi d [0x5927, 0x738B] = Some e3" "Pinyin e3 = asc ''da4 wang2''"
    using assms(2-4) by auto
  show ?thesis
    using assms(5) by (simp add: h n e asc_def)
qed

lemma capitalize_wo_de_da_wang:
  assumes U: "standard_tables U"
  shows "capitalize U (asc ''wo3 de5 da4 wang2 ! '') = Ok (asc ''Wo3 de5 da4 wang2 !'')"
proof -
  have t: "TrimSpace (asc ''o3 de5 da4 wang2 ! '') = asc ''o3 de5 da4 wang2 !''"
    by (simp add: TrimSpace_def isSpace_def asc_def)
  have l: "ToLower U (asc ''o3 de5 da4 wang2 !'') = asc ''o3 de5 da4 wang2 !''"
    by (subst standard_ToLower[OF U]) (simp_all add: asc_def ToLower_def ascii_tables_def)
  have u: "ToUpper U (asc ''w'') = asc ''W''"
    by (subst standard_ToUpper[OF U]) (simp_all add: asc_def ToUpper_def ascii_tables_def)
  have "capitalize U (asc ''w'' @ asc ''o3 de5 da4 wang2 ! '') =
      Ok (asc ''W'' @ asc ''o3 de5 da4 wang2 !'')"
    using t l u by (simp add: capitalize_def utf8_len_def asc_def)
  then show ?thesis by (simp add: asc_def)
qed

text \<open>
  C8. With the three entries found and no longer run of the input in the dictionary,
  the input (U+6211 U+7684 U+5927 U+738B U+FF01) is segmented into \<^verbatim>\<open>wo3 de5 da4 wang2 !\<close>
  and capitalized by \<^verbatim>\<open>HanziToPinyin\<close>; \<^verbatim>\<open>PinyinTones\<close> renders the tones and
  \<^verbatim>\<open>FixSymbolSpaces\<close> takes the space before the exclamation mark away. The result is
  W, U+01D2, space, d, e, space, d, U+00E0, space, w, U+00E1, n, g, exclamation mark.
\<close>

theorem HanziToPinyin_wo_de_da_wang:
  assumes U: "standard_tables U"
    and "map_option Pinyin (GetByHanzi d [0x6211]) = Some (asc ''wo3'')"
    and "map_option Pinyin (GetByHanzi d [0x7684]) = Some (asc ''de5'')"
    and "map_option Pinyin (GetByHanzi d [0x5927, 0x738B]) = Some (asc ''da4 wang2'')"
    and "list_all (\<lambda>h. GetByHanzi d h = None)
           [[0x6211, 0x7684, 0x5927, 0x738B, 0x21], [0x6211, 0x7684, 0x5927, 0x738B],
            [0x6211, 0x7684, 0x5927], [0x6211, 0x7684],
            [0x7684, 0x5927, 0x738B, 0x21], [0x7684, 0x5927, 0x738B], [0x7684, 0x5927],
            [0x5927, 0x738B, 0x21]]"
  shows "HanziToPinyin U d [0x6211, 0x7684, 0x5927, 0x738B, 0xFF01] = Ok (asc ''Wo3 de5 da4 wang2 !'')
       \<and> PinyinTones (asc ''Wo3 de5 da4 wang2 !'') =
           Ok ([0x57, 0x1D2] @ asc '' de d'' @ [0xE0] @ asc '' w'' @ [0xE1] @ asc ''ng !'')
       \<and> FixSymbolSpaces ([0x57, 0x1D2] @ asc '' de d'' @ [0xE0] @ asc '' w'' @ [0xE1] @ asc ''ng !'') =
           [0x57, 0x1D2] @ asc '' de d'' @ [0xE0] @ asc '' w'' @ [0xE1] @ asc ''ng!''"
proof -
  have t: "TrimSpace [0x6211, 0x7684, 0x5927, 0x738B, 0xFF01] = [0x6211, 0x7684, 0x5927, 0x738B, 0xFF01]"
    by (simp add: TrimSpace_def isSpace_def)
  have c: "ConvertSymbols [0x6211, 0x7684, 0x5927, 0x738B, 0xFF01] = [0x6211, 0x7684, 0x5927, 0x738B, 0x21]"
    by (simp add: ConvertSymbols_def symbols_table_def asc_def)
  have 1: "HanziToPinyin U d [0x6211, 0x7684, 0x5927, 0x738B, 0xFF01] = Ok (asc ''Wo3 de5 da4 wang2 !'')"
    unfolding HanziToPinyin_def t c segment_wo_de_da_wang[OF assms] capitalize_wo_de_da_wang[OF U]
    by (simp add: blen_def utf8_len_def)
  have 2: "PinyinTones (asc ''Wo3 de5 da4 wang2 !'') =
           Ok ([0x57, 0x1D2] @ asc '' de d'' @ [0xE0] @ asc '' w'' @ [0xE1] @ asc ''ng !'')"
    by (simp add: tones_eval tone_eval)
  have 3: "FixSymbolSpaces ([0x57, 0x1D2] @ asc '' de d'' @ [0xE0] @ asc '' w'' @ [0xE1] @ asc ''ng !'') =
           [0x57, 0x1D2] @ asc '' de d'' @ [0xE0] @ asc '' w'' @ [0xE1] @ asc ''ng!''"
    by (simp add: FixSymbolSpaces_def asc_def HasPrefix_def)
  from 1 2 3 show ?thesis by blast
qed

lemmas lookup_eval = GetByHanzi_def translit_sample_def newDict_def TrimSpace_def isSpace_def asc_def

theorem HanziToPinyin_wo_de_da_wang_witness:
  "standard_tables ascii_tables
   \<and> map_option Pinyin (GetByHanzi translit_sample [0x6211]) = Some (asc ''wo3'')
   \<and> map_option Pinyin (GetByHanzi translit_sample [0x7684]) = Some (asc ''de5'')
   \<and> map_option Pinyin (GetByHanzi translit_sample [0x5927, 0x738B]) = Some (asc ''da4 wang2'')
   \<and> list_all (\<lambda>h. GetByHanzi translit_sample h = None)
           [[0x6211, 0x7684, 0x5927, 0x738B, 0x21], [0x6211, 0x7684, 0x5927, 0x738B],
            [0x6211, 0x7684, 0x5927], [0x6211, 0x7684],
            [0x7684, 0x5927, 0x738B, 0x21], [0x7684, 0x5927, 0x738B], [0x7684, 0x5927],
            [0x5927, 0x738B, 0x21]]
   \<and> HanziToPinyin ascii_tables translit_sample [0x6211, 0x7684, 0x5927, 0x738B, 0xFF01] =
       Ok (asc ''Wo3 de5 da4 wang2 !'')
   \<and> PinyinTones (asc ''Wo3 de5 da4 wang2 !'') =
       Ok ([0x57, 0x1D2] @ asc '' de d'' @ [0xE0] @ asc '' w'' @ [0xE1] @ asc ''ng !'')
   \<and> FixSymbolSpaces ([0x57, 0x1D2] @ asc '' de d'' @ [0xE0] @ asc '' w'' @ [0xE1] @ asc ''ng !'') =
       [0x57, 0x1D2] @ asc '' de d'' @ [0xE0] @ asc '' w'' @ [0xE1] @ asc ''ng!''"
proof -
  have a: "map_option Pinyin (GetByHanzi translit_sample [0x6211]) = Some (asc ''wo3'')"
    by (simp add: lookup_eval)
  have b: "map_option Pinyin (GetByHanzi translit_sample [0x7684]) = Some (asc ''de5'')"
    by (simp add: lookup_eval)
  have c: "map_option Pinyin (GetByHanzi translit_sample [0x5927, 0x738B]) = Some (asc ''da4 wang2'')"
    by (simp add: lookup_eval)
  have n: "list_all (\<lambda>h. GetByHanzi translit_sample h = None)
           [[0x6211, 0x7684, 0x5927, 0x738B, 0x21], [0x6211, 0x7684, 0x5927, 0x738B],
            [0x6211, 0x7684, 0x5927], [0x6211, 0x7684],
            [0x7684, 0x5927, 0x738B, 0x21], [0x7684, 0x5927, 0x738B], [0x7684, 0x5927],
            [0x5927, 0x738B, 0x21]]"
    by (simp add: lookup_eval)
  from HanziToPinyin_wo_de_da_wang[OF standard_tables_ascii a b c n] standard_tables_ascii a b c n
  show ?thesis by blast
qed

section \<open>Properties of the lazy population\<close>

lemma lazyLoad_fail:
  assumes "\<not> isReady d" "attempt_fails tp (responses w (calls w)) = Some er"
  shows "lazyLoad tp d w = Ok (d\<lparr>d_err := Some (WithStack er)\<rparr>, w\<lparr>calls := calls w + 1\<rparr>)"
  using assms
  by (auto simp: lazyLoad_def Download_def attempt_fails_def split: sum.splits outcome.splits)

lemma lazyLoad_success:
  assumes "\<not> isReady d" "responses w (calls w) = Inr text" "Parse tp text = Ok dict"
  shows "lazyLoad tp d w =
     Ok (d\<lparr>d_e := d_e dict, d_md := d_md dict, d_header := d_header dict, d_ready := True\<rparr>,
         w\<lparr>calls := calls w + 1\<rparr>)"
  using assms by (simp add: lazyLoad_def Download_def setReady_def isReady_def)

lemma lazyLoad_ready: "isReady d \<Longrightarrow> lazyLoad tp d w = Ok (d, w)"
  by (simp add: lazyLoad_def)

lemma lazyLoads_failing:
  assumes "\<not> isReady d" "\<forall>k<n. attempt_fails tp (responses w (calls w + k)) \<noteq> None"
  shows "\<exists>d' w'. lazyLoads tp n d w = Ok (d', w') \<and> \<not> isReady d'
      \<and> responses w' = responses w \<and> calls w' = calls w + n
      \<and> d_e d' = d_e d \<and> d_md d' = d_md d \<and> d_header d' = d_header d
      \<and> d_err d' = (if n = 0 then d_err d
                     else map_option WithStack (attempt_fails tp (responses w (calls w + n - 1))))"
  using assms
proof (induction n arbitrary: d w)
  case 0
  then show ?case by simp
next
  case (Suc n)
  from Suc.prems(2) obtain er where er: "attempt_fails tp (responses w (calls w)) = Some er"
    by (metis add.right_neutral not_Some_eq zero_less_Suc)
  let ?d = "d\<lparr>d_err := Some (WithStack er)\<rparr>"
  let ?w = "w\<lparr>calls := calls w + 1\<rparr>"
  have step: "lazyLoad tp d w = Ok (?d, ?w)"
    by (rule lazyLoad_fail[OF Suc.prems(1) er])
  have nr: "\<not> isReady ?d" using Suc.prems(1) by (simp add: isReady_def)
  have rest: "\<forall>k<n. attempt_fails tp (responses ?w (calls ?w + k)) \<noteq> None"
    using Suc.prems(2) by (auto simp: less_Suc_eq_0_disj)
  from Suc.IH[OF nr rest] obtain d' w' where
    r: "lazyLoads tp n ?d ?w = Ok (d', w')" "\<not> isReady d'" "responses w' = responses ?w"
      "calls w' = calls ?w + n" "d_e d' = d_e ?d" "d_md d' = d_md ?d" "d_header d' = d_header ?d"
      "d_err d' = (if n = 0 then d_err ?d
         else map_option WithStack (attempt_fails tp (responses ?w (calls ?w + n - 1))))"
    by blast
  have "lazyLoads tp (Suc n) d w = Ok (d', w')" using step r(1) by simp
  moreover have "d_err d' = map_option WithStack (attempt_fails tp (responses w (calls w + Suc n - 1)))"
    using r(8) er by (cases "n = 0") simp_all
  ultimately show ?case using r by simp
qed

text \<open>
  C1, as the code has it. A call of \<^verbatim>\<open>lazyLoad\<close> on an instance that is not ready makes
  one attempt at population. A failed attempt stores its error and leaves the instance
  not ready, so the next call makes the next attempt: through any number of calls whose
  attempts all fail, the instance stays not ready, the number of requests grows by one
  with each call, and the stored error is that of the latest attempt. An attempt that
  succeeds fills the instance and makes it ready, and a ready instance is left as it is.
  \<^verbatim>\<open>Err\<close> returns the stored error of the state its own call of \<^verbatim>\<open>lazyLoad\<close> leaves.
\<close>

theorem lazyLoad_retries_until_ready:
  "(\<not> isReady d \<and> attempt_fails tp (responses w (calls w)) = Some er
      \<longrightarrow> lazyLoad tp d w = Ok (d\<lparr>d_err := Some (WithStack er)\<rparr>, w\<lparr>calls := calls w + 1\<rparr>)
        \<and> Err_method tp d w =
            Ok (Some (WithStack er), d\<lparr>d_err := Some (WithStack er)\<rparr>, w\<lparr>calls := calls w + 1\<rparr>))
   \<and> (\<not> isReady d \<and> responses w (calls w) = Inr text \<and> Parse tp text = Ok dict
      \<longrightarrow> lazyLoad tp d w =
            Ok (d\<lparr>d_e := d_e dict, d_md := d_md dict, d_header := d_header dict, d_ready := True\<rparr>,
                w\<lparr>calls := calls w + 1\<rparr>))
   \<and> (isReady d \<longrightarrow> lazyLoad tp d w = Ok (d, w))
   \<and> (\<not> isReady d \<and> 0 < n \<and> (\<forall>k<n. attempt_fails tp (responses w (calls w + k)) \<noteq> None)
      \<longrightarrow> (\<exists>d' w'. lazyLoads tp n d w = Ok (d', w') \<and> \<not> isReady d' \<and> calls w' = calls w + n
            \<and> d_err d' = map_option WithStack (attempt_fails tp (responses w (calls w + n - 1)))))"
proof -
  have 1: "lazyLoad tp d w = Ok (d\<lparr>d_err := Some (WithStack er)\<rparr>, w\<lparr>calls := calls w + 1\<rparr>)
        \<and> Err_method tp d w =
            Ok (Some (WithStack er), d\<lparr>d_err := Some (WithStack er)\<rparr>, w\<lparr>calls := calls w + 1\<rparr>)"
    if "\<not> isReady d" "attempt_fails tp (responses w (calls w)) = Some er"
    using lazyLoad_fail[OF that] by (simp add: Err_method_def)
  have 4: "\<exists>d' w'. lazyLoads tp n d w = Ok (d', w') \<and> \<not> isReady d' \<and> calls w' = calls w + n
            \<and> d_err d' = map_option WithStack (attempt_fails tp (responses w (calls w + n - 1)))"
    if "\<not> isReady d" "0 < n" "\<forall>k<n. attempt_fails tp (responses w (calls w + k)) \<noteq> None"
    using lazyLoads_failing[OF that(1,3)] that(2) by auto
  from 1 4 lazyLoad_success[of d w "text" tp dict] lazyLoad_ready[of d tp w]
  show ?thesis by blast
qed

lemma sample_Parse: "Parse (\<lambda>v. None) (sample_text 2) = Ok ((sample_lines 2)\<lparr>d_ready := True\<rparr>)"
  by (simp add: sample_text_def sample_lines_def codec_eval)

lemma flaky_fails:
  "attempt_fails tp (responses flaky_world 0) = Some (DownloadError (asc ''bad status: 503''))"
  "attempt_fails tp (responses flaky_world (Suc 0)) =
     Some (DownloadError (asc ''gzip: invalid header''))"
  by (simp_all add: flaky_world_def attempt_fails_def)

theorem lazyLoad_retries_witness:
  "\<not> isReady newDict
   \<and> attempt_fails (\<lambda>v. None) (responses flaky_world (calls flaky_world)) =
        Some (DownloadError (asc ''bad status: 503''))
   \<and> lazyLoad (\<lambda>v. None) newDict flaky_world =
        Ok (newDict\<lparr>d_err := Some (WithStack (DownloadError (asc ''bad status: 503'')))\<rparr>,
            flaky_world\<lparr>calls := 1\<rparr>)
   \<and> (\<exists>d' w'. lazyLoads (\<lambda>v. None) 2 newDict flaky_world = Ok (d', w') \<and> \<not> isReady d'
         \<and> calls w' = 2
         \<and> d_err d' = Some (WithStack (DownloadError (asc ''gzip: invalid header''))))"
proof -
  have r: "\<not> isReady newDict" by (simp add: isReady_def newDict_def)
  have c: "calls flaky_world = 0" by (simp add: flaky_world_def)
  have f: "attempt_fails (\<lambda>v. None) (responses flaky_world (calls flaky_world)) =
        Some (DownloadError (asc ''bad status: 503''))"
    by (simp add: c flaky_fails)
  have a: "\<forall>k<2. attempt_fails (\<lambda>v. None) (responses flaky_world (calls flaky_world + k)) \<noteq> None"
    by (auto simp: c flaky_fails less_2_cases_iff)
  have z: "(0::nat) < 2" by simp
  note T = lazyLoad_retries_until_ready[of newDict "\<lambda>v. None" flaky_world
      "DownloadError (asc ''bad status: 503'')" _ _ 2]
  from T r f have A: "lazyLoad (\<lambda>v. None) newDict flaky_world =
      Ok (newDict\<lparr>d_err := Some (WithStack (DownloadError (asc ''bad status: 503'')))\<rparr>,
          flaky_world\<lparr>calls := calls flaky_world + 1\<rparr>)"
    by blast
  from T r z a have B: "\<exists>d' w'. lazyLoads (\<lambda>v. None) 2 newDict flaky_world = Ok (d', w')
      \<and> \<not> isReady d' \<and> calls w' = calls flaky_world + 2
      \<and> d_err d' = map_option WithStack
           (attempt_fails (\<lambda>v. None) (responses flaky_world (calls flaky_world + 2 - 1)))"
    by blast
  then obtain d' w' where B:
    "lazyLoads (\<lambda>v. None) 2 newDict flaky_world = Ok (d', w')" "\<not> isReady d'"
    "calls w' = calls flaky_world + 2"
    "d_err d' = map_option WithStack
           (attempt_fails (\<lambda>v. None) (responses flaky_world (calls flaky_world + 2 - 1)))"
    by blast
  have e: "calls flaky_world + 2 - 1 = Suc 0" using c by simp
  have B3: "calls w' = 2" using B(3) c by simp
  have B4: "d_err d' = Some (WithStack (DownloadError (asc ''gzip: invalid header'')))"
    using B(4) unfolding e by (simp add: flaky_fails)
  have A': "lazyLoad (\<lambda>v. None) newDict flaky_world =
      Ok (newDict\<lparr>d_err := Some (WithStack (DownloadError (asc ''bad status: 503'')))\<rparr>,
          flaky_world\<lparr>calls := 1\<rparr>)"
    using A c by simp
  from r f A' B(1,2) B3 B4 show ?thesis by blast
qed

text \<open>
  C1 as stated fails: in a world whose first two requests fail and whose third delivers
  a dictionary, the second call requests again and replaces the stored error, and the
  third call makes the instance ready.
\<close>

theorem lazyLoad_not_sticky_counterexample:
  "(case lazyLoads (\<lambda>v. None) 1 newDict flaky_world of
      Ok (d1, w1) \<Rightarrow> \<not> isReady d1 \<and> calls w1 = 1
        \<and> d_err d1 = Some (WithStack (DownloadError (asc ''bad status: 503'')))
    | _ \<Rightarrow> False)
   \<and> (case lazyLoads (\<lambda>v. None) 2 newDict flaky_world of
      Ok (d2, w2) \<Rightarrow> \<not> isReady d2 \<and> calls w2 = 2
        \<and> d_err d2 = Some (WithStack (DownloadError (asc ''gzip: invalid header'')))
    | _ \<Rightarrow> False)
   \<and> (case lazyLoads (\<lambda>v. None) 3 newDict flaky_world of
      Ok (d3, w3) \<Rightarrow> isReady d3 \<and> calls w3 = 3 \<and> d_e d3 = d_e (sample_lines 2)
    | _ \<Rightarrow> False)"
proof -
  let ?e1 = "DownloadError (asc ''bad status: 503'')"
  let ?e2 = "DownloadError (asc ''gzip: invalid header'')"
  let ?d1 = "newDict\<lparr>d_err := Some (WithStack ?e1)\<rparr>"
  let ?d2 = "?d1\<lparr>d_err := Some (WithStack ?e2)\<rparr>"
  let ?w1 = "flaky_world\<lparr>calls := Suc 0\<rparr>"
  let ?w2 = "flaky_world\<lparr>calls := Suc (Suc 0)\<rparr>"
  let ?d3 = "?d2\<lparr>d_e := d_e ((sample_lines 2)\<lparr>d_ready := True\<rparr>),
              d_md := d_md ((sample_lines 2)\<lparr>d_ready := True\<rparr>),
              d_header := d_header ((sample_lines 2)\<lparr>d_ready := True\<rparr>), d_ready := True\<rparr>"
  have r: "\<not> isReady newDict" "\<not> isReady ?d1" "\<not> isReady ?d2"
    by (simp_all add: isReady_def newDict_def)
  have c: "calls flaky_world = 0" by (simp add: flaky_world_def)
  have s1: "lazyLoad (\<lambda>v. None) newDict flaky_world = Ok (?d1, ?w1)"
    using lazyLoad_fail[OF r(1), of "\<lambda>v. None" flaky_world ?e1] by (simp add: c flaky_fails)
  have s2: "lazyLoad (\<lambda>v. None) ?d1 ?w1 = Ok (?d2, ?w2)"
    using lazyLoad_fail[OF r(2), of "\<lambda>v. None" ?w1 ?e2] by (simp add: flaky_fails)
  have s3: "lazyLoad (\<lambda>v. None) ?d2 ?w2 = Ok (?d3, ?w2\<lparr>calls := calls ?w2 + 1\<rparr>)"
    by (rule lazyLoad_success[OF r(3) _ sample_Parse]) (simp add: flaky_world_def)
  have l1: "lazyLoads (\<lambda>v. None) 1 newDict flaky_world = Ok (?d1, ?w1)"
    using s1 by simp
  have l2: "lazyLoads (\<lambda>v. None) 2 newDict flaky_world = Ok (?d2, ?w2)"
    using s1 s2 by (simp add: numeral_2_eq_2)
  have l3: "lazyLoads (\<lambda>v. None) 3 newDict flaky_world =
      Ok (?d3, ?w2\<lparr>calls := calls ?w2 + 1\<rparr>)"
    using s1 s2 s3 by (simp add: numeral_3_eq_3)
  show ?thesis
    unfolding l1 l2 l3 by (simp add: isReady_def newDict_def)
qed

end
